theory Spec2Isabelle
  imports Main "HOL-Library.Word"
begin

section \<open>The ring backend: \<open>02_async_io/io-uring-cp.c\<close>\<close>

text \<open>
  Integers. \<open>uint32_t\<close> is \<open>32 word\<close> and \<open>uint16_t\<close> is \<open>16 word\<close> (arithmetic wraps).
  \<open>off_t\<close> and \<open>off64_t\<close> are 64-bit signed; they are modelled as \<open>int\<close>: every value the
  program stores in one lies between 0 and \<open>src_size < 2 ^ 32\<close> (lemma
  \<open>uring_reach_cursor\<close> below), far from the 64-bit range. A conversion of such a value to
  \<open>uint32_t\<close> is \<open>word_of_int\<close> (reduction modulo \<open>2 ^ 32\<close>), as in C.

  The macros \<open>READ_BLOCK_SIZE\<close> and \<open>QUEUE_SIZE\<close> are parameters \<open>B\<close> and \<open>N\<close> of the
  definitions. The files fix them: \<open>8192U\<close> and \<open>64U\<close> in \<open>io-uring-cp.c\<close> and
  \<open>linux-aio-cp.c\<close>, \<open>512U\<close> and \<open>16U\<close> in \<open>posix-aio-cp.c\<close>.
\<close>

type_synonym byte = "8 word"

definition READ_BLOCK_SIZE :: "32 word" where
  "READ_BLOCK_SIZE = 8192"

definition QUEUE_SIZE :: nat where
  "QUEUE_SIZE = 64"

datatype BlockStage = BLOCK_IDLE | BLOCK_IN_READ | BLOCK_IN_WRITE

record BlockStatus =
  stage :: BlockStage
  offset :: int
  size_blk :: "32 word"

text \<open>
  A submission-queue entry as \<open>io_uring_prep_read_fixed\<close> and
  \<open>io_uring_prep_write_fixed\<close> of liburing fill it: the operation, the file descriptor,
  the registered buffer, the number of bytes, the file offset, and the \<open>user_data\<close> the
  program stores in it afterwards.
\<close>

datatype io_op = IORING_OP_READ_FIXED | IORING_OP_WRITE_FIXED

record io_uring_sqe =
  sqe_opcode :: io_op
  sqe_fd :: int
  sqe_buf_index :: nat
  sqe_len :: "32 word"
  sqe_off :: int
  sqe_user_data :: nat

text \<open>A completion-queue entry: the \<open>user_data\<close> of its request and the signed result.\<close>

record io_uring_cqe =
  cqe_user_data :: nat
  cqe_res :: int

text \<open>
  \<open>struct CopyStatus\<close>. Of \<open>io_ring\<close> the driver's side is the submission queue \<open>sq\<close>:
  the entries taken with \<open>io_uring_get_sqe\<close> since the last submit. The buffers
  (\<open>aligned_buffers\<close>, \<open>fixed_buffers\<close>) are never read or written by the program, only by
  the kernel: they are part of the record \<open>world\<close> below.
\<close>

record CopyStatus =
  src_fd :: int
  dst_fd :: int
  src_off :: int
  src_size :: "32 word"
  num_block_in_progress :: "16 word"
  block_statuses :: "BlockStatus list"
  sq :: "io_uring_sqe list"

text \<open>
  \<open>init_copying_status\<close>; the ring and the buffers are taken as set up (a failure there
  exits before any request).
\<close>

definition init_copying_status :: "nat \<Rightarrow> 32 word \<Rightarrow> int \<Rightarrow> int \<Rightarrow> CopyStatus" where
  "init_copying_status N ssize sfd dfd =
     \<lparr>src_fd = sfd, dst_fd = dfd, src_off = 0, src_size = ssize,
      num_block_in_progress = 0,
      block_statuses = replicate N \<lparr>stage = BLOCK_IDLE, offset = 0, size_blk = 0\<rparr>,
      sq = []\<rparr>"

text \<open>
  \<open>prepare_read_request\<close>. \<open>bytes_left\<close> is the \<open>uint32_t\<close> conversion of
  \<open>src_size - src_off\<close>. The request always asks for \<open>READ_BLOCK_SIZE\<close> bytes; the
  slot's \<open>size\<close> is the smaller of \<open>bytes_left\<close> and the block size. All callers pass
  \<open>cell < QUEUE_SIZE\<close>.
\<close>

definition prepare_read_request :: "32 word \<Rightarrow> CopyStatus \<Rightarrow> nat \<Rightarrow> CopyStatus" where
  "prepare_read_request B status cell =
     (let bytes_left = (word_of_int (uint (src_size status) - src_off status) :: 32 word) in
      if bytes_left = 0 then status
      else
        let block = (block_statuses status ! cell)
              \<lparr>stage := BLOCK_IN_READ,
               offset := src_off status,
               size_blk := (if bytes_left < B then bytes_left else B)\<rparr>;
            read_sqe = \<lparr>sqe_opcode = IORING_OP_READ_FIXED, sqe_fd = src_fd status,
               sqe_buf_index = cell, sqe_len = B, sqe_off = offset block,
               sqe_user_data = cell\<rparr>
        in status
             \<lparr>src_off := src_off status + uint (size_blk block),
              num_block_in_progress := num_block_in_progress status + 1,
              block_statuses := (block_statuses status)[cell := block],
              sq := sq status @ [read_sqe]\<rparr>)"

definition prepare_write_request :: "32 word \<Rightarrow> CopyStatus \<Rightarrow> nat \<Rightarrow> CopyStatus" where
  "prepare_write_request B status cell =
     (let block = (block_statuses status ! cell)\<lparr>stage := BLOCK_IN_WRITE\<rparr>;
          write_sqe = \<lparr>sqe_opcode = IORING_OP_WRITE_FIXED, sqe_fd = dst_fd status,
             sqe_buf_index = cell, sqe_len = B, sqe_off = offset block,
             sqe_user_data = cell\<rparr>
      in status
           \<lparr>block_statuses := (block_statuses status)[cell := block],
            sq := sq status @ [write_sqe]\<rparr>)"

definition finish_write_request :: "CopyStatus \<Rightarrow> nat \<Rightarrow> CopyStatus" where
  "finish_write_request status cell =
     (let block = (block_statuses status ! cell)\<lparr>stage := BLOCK_IDLE\<rparr>
      in status
           \<lparr>num_block_in_progress := num_block_in_progress status - 1,
            block_statuses := (block_statuses status)[cell := block]\<rparr>)"

text \<open>
  The \<open>exit(EXIT_FAILURE)\<close> that the model follows: the two of the completion loop of
  \<open>main\<close>, each with the offset it prints, and the one of \<open>open_dst_file\<close> of \<open>common.h\<close>
  after \<open>fallocate\<close> has failed (\<open>Not enough space for file\<close>).
\<close>

datatype fatal = Read_operation_failed int | Write_operation_failed int | Not_enough_space

text \<open>
  One pass through the body of the \<open>do ... while (cell_i != -1)\<close> loop of \<open>main\<close> for a
  completion that \<open>io_uring_peek_cqe\<close> returned (\<open>cell_i\<close> is its \<open>user_data\<close>).
\<close>

definition handle_cqe :: "32 word \<Rightarrow> CopyStatus \<Rightarrow> io_uring_cqe \<Rightarrow> fatal + CopyStatus" where
  "handle_cqe B status done_req =
     (let cell_i = cqe_user_data done_req in
      if stage (block_statuses status ! cell_i) = BLOCK_IN_READ then
        (if cqe_res done_req < 0
         then Inl (Read_operation_failed (offset (block_statuses status ! cell_i)))
         else Inr (prepare_write_request B status cell_i))
      else if stage (block_statuses status ! cell_i) = BLOCK_IN_WRITE then
        (if cqe_res done_req < 0
         then Inl (Write_operation_failed (offset (block_statuses status ! cell_i)))
         else Inr (prepare_read_request B (finish_write_request status cell_i) cell_i))
      else Inr status)"

text \<open>The first loop of \<open>main\<close>: \<open>prepare_read_request\<close> on every cell, in index order.\<close>

definition initial_reads :: "32 word \<Rightarrow> nat \<Rightarrow> CopyStatus \<Rightarrow> CopyStatus" where
  "initial_reads B N status = foldl (prepare_read_request B) status [0..<N]"

section \<open>Files, the kernel and the run of \<open>main\<close>\<close>

text \<open>
  The file operations of the operating system, on files as byte lists. \<open>pread_file\<close>
  returns at most \<open>n\<close> bytes from \<open>off\<close>, fewer at the end of the file. \<open>pwrite_file\<close>
  overwrites from \<open>off\<close> and extends the file where the data reach beyond its end (a gap
  reads as zero bytes). \<open>ftruncate_file\<close> cuts or zero-extends to the given size.
\<close>

definition pread_file :: "byte list \<Rightarrow> nat \<Rightarrow> nat \<Rightarrow> byte list" where
  "pread_file f off n = take n (drop off f)"

definition pwrite_file :: "byte list \<Rightarrow> nat \<Rightarrow> byte list \<Rightarrow> byte list" where
  "pwrite_file f off data =
     (if data = [] then f
      else take off f @ replicate (off - length f) 0 @ data @ drop (off + length data) f)"

definition ftruncate_file :: "byte list \<Rightarrow> nat \<Rightarrow> byte list" where
  "ftruncate_file f n = take n f @ replicate (n - length f) 0"

text \<open>
  \<open>fallocate(fd, 0, 0, len)\<close>: Linux rejects the length 0 with \<open>EINVAL\<close> (\<open>None\<close>); for
  any other length the file is at least \<open>len\<close> bytes long afterwards, the new bytes zero
  (the disk is taken to have room). \<open>open_dst_file\<close> of \<open>common.h\<close> opens the destination
  with \<open>O_TRUNC\<close>, so that it is empty, calls \<open>fallocate\<close> with the size of the source,
  and exits when the call fails. All five programs open the destination through it.
\<close>

definition fallocate_file :: "byte list \<Rightarrow> nat \<Rightarrow> byte list option" where
  "fallocate_file f len =
     (if len = 0 then None else Some (f @ replicate (len - length f) 0))"

definition open_dst_file :: "32 word \<Rightarrow> fatal + byte list" where
  "open_dst_file ssize =
     (case fallocate_file [] (unat ssize) of
        None \<Rightarrow> Inl Not_enough_space
      | Some f \<Rightarrow> Inr f)"

text \<open>
  What the program shares with the kernel: the source and the destination file, the
  registered buffers (\<open>fixed_buffers[i]\<close> is the \<open>i\<close>-th block of \<open>aligned_buffers\<close>),
  and the requests submitted and not yet completed.
\<close>

record world =
  src_file :: "byte list"
  dst_file :: "byte list"
  fixed_buffers :: "byte list list"
  in_kernel :: "io_uring_sqe list"

text \<open>
  \<open>io_uring_submit_and_wait\<close> hands every prepared entry to the kernel.
\<close>

definition io_uring_submit :: "CopyStatus \<times> world \<Rightarrow> CopyStatus \<times> world" where
  "io_uring_submit sw =
     (case sw of (status, w) \<Rightarrow>
        (status\<lparr>sq := []\<rparr>, w\<lparr>in_kernel := in_kernel w @ sq status\<rparr>))"

text \<open>
  The kernel completes the request in flight whose \<open>user_data\<close> is \<open>cell\<close> (there is
  none: nothing happens). The environment chooses the outcome \<open>want\<close>: negative, the
  request fails with that result and transfers nothing; otherwise the kernel transfers as
  many bytes as the request and the file allow, but at most \<open>want\<close>. A read fills the
  start of the buffer, a write takes the start of the buffer. The result of the
  completion is the number of bytes transferred. The program only prepares reads on
  \<open>src_fd\<close> and writes on \<open>dst_fd\<close>.
\<close>

definition kernel_complete :: "world \<Rightarrow> nat \<Rightarrow> int \<Rightarrow> (io_uring_cqe \<times> world) option" where
  "kernel_complete w cell want =
     (case find (\<lambda>q. sqe_user_data q = cell) (in_kernel w) of
        None \<Rightarrow> None
      | Some q \<Rightarrow>
          let w' = w\<lparr>in_kernel := remove1 q (in_kernel w)\<rparr> in
          if want < 0 then Some (\<lparr>cqe_user_data = cell, cqe_res = want\<rparr>, w')
          else
            (case sqe_opcode q of
               IORING_OP_READ_FIXED \<Rightarrow>
                 let data = take (nat want)
                       (pread_file (src_file w) (nat (sqe_off q)) (unat (sqe_len q)));
                     buf = fixed_buffers w ! sqe_buf_index q
                 in Some (\<lparr>cqe_user_data = cell, cqe_res = int (length data)\<rparr>,
                      w'\<lparr>fixed_buffers :=
                           (fixed_buffers w)[sqe_buf_index q := data @ drop (length data) buf]\<rparr>)
             | IORING_OP_WRITE_FIXED \<Rightarrow>
                 let data = take (nat want)
                       (take (unat (sqe_len q)) (fixed_buffers w ! sqe_buf_index q))
                 in Some (\<lparr>cqe_user_data = cell, cqe_res = int (length data)\<rparr>,
                      w'\<lparr>dst_file := pwrite_file (dst_file w) (nat (sqe_off q)) data\<rparr>)))"

text \<open>
  The \<open>do ... while\<close> loop of \<open>main\<close> on the completions that arrive during one pass of
  the outer loop, each given as \<open>(cell, want)\<close>: the kernel completes the request, the
  program handles the completion. The program never touches the buffers or the files, and
  requests in flight use different buffers and disjoint ranges of the destination, so
  the moment at which the kernel performs a transfer before its completion is fetched
  does not matter.
\<close>

fun drain :: "32 word \<Rightarrow> CopyStatus \<times> world \<Rightarrow> (nat \<times> int) list \<Rightarrow> fatal + CopyStatus \<times> world" where
  "drain B sw [] = Inr sw"
| "drain B sw (ev # evs) =
     (case kernel_complete (snd sw) (fst ev) (snd ev) of
        None \<Rightarrow> drain B sw evs
      | Some (done_req, w') \<Rightarrow>
          (case handle_cqe B (fst sw) done_req of
             Inl e \<Rightarrow> Inl e
           | Inr status' \<Rightarrow> drain B (status', w') evs))"

text \<open>
  The outer loop of \<open>main\<close>. Each element of \<open>batches\<close> is what completes during one pass.
  \<open>Waiting\<close>: the loop is not finished and the environment delivers nothing more.
\<close>

datatype 'a run = Exited fatal | Returned (result: 'a) | Waiting 'a

fun copy_loop :: "32 word \<Rightarrow> CopyStatus \<times> world \<Rightarrow> (nat \<times> int) list list \<Rightarrow> (CopyStatus \<times> world) run" where
  "copy_loop B sw [] =
     (if src_off (fst sw) \<noteq> uint (src_size (fst sw)) \<or> num_block_in_progress (fst sw) \<noteq> 0
      then Waiting sw else Returned sw)"
| "copy_loop B sw (evs # batches) =
     (if src_off (fst sw) \<noteq> uint (src_size (fst sw)) \<or> num_block_in_progress (fst sw) \<noteq> 0
      then (case drain B (io_uring_submit sw) evs of
              Inl e \<Rightarrow> Exited e
            | Inr sw' \<Rightarrow> copy_loop B sw' batches)
      else Returned sw)"

text \<open>
  \<open>main\<close> of \<open>io-uring-cp.c\<close> with \<open>open_src_file\<close>, \<open>open_dst_file\<close> and
  \<open>close_src_dst_files\<close> of \<open>common.h\<close>; the other system calls outside the ring are taken
  to succeed. \<open>src\<close> is the source file, \<open>bufs\<close> the initial contents of the \<open>N\<close> buffers
  (\<open>aligned_alloc\<close> does not clear them). \<open>open_src_file\<close> stores the file size in a
  \<open>uint32_t\<close>. \<open>uring_start\<close> is \<open>main\<close> up to the end of its first loop, \<open>uring_run\<close> up to
  the end of the copy loop, \<open>uring_main\<close> the whole of it: its result is the destination
  file after \<open>ftruncate\<close>.
\<close>

definition uring_start :: "32 word \<Rightarrow> nat \<Rightarrow> byte list \<Rightarrow> byte list list \<Rightarrow> fatal + CopyStatus \<times> world" where
  "uring_start B N src bufs =
     (let file_size = (word_of_nat (length src) :: 32 word) in
      case open_dst_file file_size of
        Inl e \<Rightarrow> Inl e
      | Inr dst \<Rightarrow>
          let status = init_copying_status N file_size 3 4;
              w = \<lparr>src_file = src, dst_file = dst, fixed_buffers = bufs, in_kernel = []\<rparr>
          in Inr (initial_reads B N status, w))"

definition uring_run :: "32 word \<Rightarrow> nat \<Rightarrow> byte list \<Rightarrow> byte list list \<Rightarrow> (nat \<times> int) list list \<Rightarrow> (CopyStatus \<times> world) run" where
  "uring_run B N src bufs batches =
     (case uring_start B N src bufs of
        Inl e \<Rightarrow> Exited e
      | Inr sw \<Rightarrow> copy_loop B sw batches)"

definition uring_main :: "32 word \<Rightarrow> nat \<Rightarrow> byte list \<Rightarrow> byte list list \<Rightarrow> (nat \<times> int) list list \<Rightarrow> (byte list) run" where
  "uring_main B N src bufs batches =
     (case uring_run B N src bufs batches of
        Exited e \<Rightarrow> Exited e
      | Waiting sw \<Rightarrow> Waiting (dst_file (snd sw))
      | Returned sw \<Rightarrow>
          Returned (ftruncate_file (dst_file (snd sw)) (unat (src_size (fst sw)))))"

section \<open>The native AIO backend: \<open>02_async_io/linux-aio-cp.c\<close>\<close>

text \<open>
  \<open>// Round file size\<close>: the statement
  \<open>src_size = src_size + READ_BLOCK_SIZE - (src_size % READ_BLOCK_SIZE)\<close> of \<open>main\<close>, in
  \<open>linux-aio-cp.c\<close> and in \<open>posix-aio-cp.c\<close>, on \<open>uint32_t\<close>.
\<close>

definition round_file_size :: "32 word \<Rightarrow> 32 word \<Rightarrow> 32 word" where
  "round_file_size B file_size = file_size + B - (file_size mod B)"

text \<open>
  A control block, as \<open>io_read_setup\<close> and \<open>io_write_setup\<close> fill it. The buffer
  \<open>&buffer[i * READ_BLOCK_SIZE]\<close> is given by \<open>i\<close>; \<open>nbytes\<close> is a \<open>size_t\<close>.
\<close>

datatype lio_opcode = IO_CMD_PREAD | IO_CMD_PWRITE

record iocb =
  aio_fildes :: int
  aio_lio_opcode :: lio_opcode
  c_buf :: nat
  c_nbytes :: "64 word"
  c_offset :: int

definition io_read_setup :: "int \<Rightarrow> int \<Rightarrow> nat \<Rightarrow> 64 word \<Rightarrow> iocb" where
  "io_read_setup fd off buf sz =
     \<lparr>aio_fildes = fd, aio_lio_opcode = IO_CMD_PREAD, c_buf = buf, c_nbytes = sz,
      c_offset = off\<rparr>"

definition io_write_setup :: "int \<Rightarrow> int \<Rightarrow> nat \<Rightarrow> 64 word \<Rightarrow> iocb" where
  "io_write_setup fd off buf sz =
     \<lparr>aio_fildes = fd, aio_lio_opcode = IO_CMD_PWRITE, c_buf = buf, c_nbytes = sz,
      c_offset = off\<rparr>"

text \<open>
  The local variables of \<open>main\<close>: \<open>l_src_size\<close> is \<open>src_size\<close> after the rounding,
  \<open>l_submit_list\<close> holds indices into \<open>l_iocbs\<close> (\<open>None\<close> is \<open>NULL\<close>). \<open>l_in_flight\<close> is the
  kernel's side of the AIO context: the control blocks submitted and not yet returned by
  \<open>io_getevents\<close>.
\<close>

record aio_status =
  l_src_fd :: int
  l_dst_fd :: int
  l_src_size :: "32 word"
  l_src_off :: int
  l_num_io_reqs :: "64 word"
  l_num_to_submit :: "64 word"
  l_iocbs :: "iocb list"
  l_submit_list :: "nat option list"
  l_in_flight :: "nat list"

definition aio_init :: "32 word \<Rightarrow> nat \<Rightarrow> 32 word \<Rightarrow> aio_status" where
  "aio_init B N file_size =
     \<lparr>l_src_fd = 3, l_dst_fd = 4, l_src_size = round_file_size B file_size, l_src_off = 0,
      l_num_io_reqs = 0, l_num_to_submit = 0,
      l_iocbs = replicate N (io_read_setup 0 0 0 0),
      l_submit_list = replicate N None, l_in_flight = []\<rparr>"

text \<open>
  The loop \<open>// Start initial read requests\<close>: \<open>aio_first_pass\<close> is its body together
  with \<open>++num_io_reqs\<close>, \<open>aio_first_loop\<close> the loop from index \<open>aio_i\<close> on.
\<close>

definition aio_first_pass :: "32 word \<Rightarrow> aio_status \<Rightarrow> nat \<Rightarrow> aio_status" where
  "aio_first_pass B s aio_i =
     s\<lparr>l_iocbs := (l_iocbs s)[aio_i := io_read_setup (l_src_fd s) (l_src_off s) aio_i (ucast B)],
       l_submit_list := (l_submit_list s)[aio_i := Some aio_i],
       l_src_off := l_src_off s + uint B,
       l_num_io_reqs := l_num_io_reqs s + 1\<rparr>"

function aio_first_loop :: "32 word \<Rightarrow> nat \<Rightarrow> aio_status \<Rightarrow> nat \<Rightarrow> aio_status" where
  "aio_first_loop B N s aio_i =
     (if aio_i < N \<and> l_src_off s < uint (l_src_size s)
      then aio_first_loop B N (aio_first_pass B s aio_i) (Suc aio_i)
      else s)"
  by pat_completeness auto
termination
  by (relation "measure (\<lambda>(B, N, s, aio_i). N - aio_i)") auto

declare aio_first_loop.simps [simp del]

text \<open>
  \<open>io_submit(io_ctx, num_to_submit, submit_list)\<close>, taken to succeed, followed by
  \<open>num_to_submit = 0U\<close>.
\<close>

definition io_submit :: "aio_status \<Rightarrow> aio_status" where
  "io_submit s =
     s\<lparr>l_in_flight := l_in_flight s
          @ List.map_filter (\<lambda>p. p) (take (unat (l_num_to_submit s)) (l_submit_list s)),
       l_num_to_submit := 0\<rparr>"

text \<open>
  The body of the loop \<open>// Handle finished requests\<close> for one event: \<open>ev\<close> is the index of
  the control block (\<open>events[ev].obj\<close>) and the result (\<open>events[ev].res\<close>, read into an
  \<open>int\<close>). No result makes this loop exit.
\<close>

definition aio_handle_event :: "32 word \<Rightarrow> aio_status \<Rightarrow> nat \<times> int \<Rightarrow> aio_status" where
  "aio_handle_event B s ev =
     (let i = fst ev; io_ret = snd ev; cb = l_iocbs s ! i in
      if aio_lio_opcode cb = IO_CMD_PREAD then
        (if io_ret \<noteq> 0 then
           s\<lparr>l_iocbs := (l_iocbs s)
                [i := io_write_setup (l_dst_fd s) (c_offset cb) (c_buf cb) (word_of_int io_ret)],
             l_submit_list := (l_submit_list s)[unat (l_num_to_submit s) := Some i],
             l_num_to_submit := l_num_to_submit s + 1\<rparr>
         else s\<lparr>l_num_io_reqs := l_num_io_reqs s - 1\<rparr>)
      else if aio_lio_opcode cb = IO_CMD_PWRITE then
        (if io_ret \<noteq> 0 \<and> l_src_off s < uint (l_src_size s) then
           s\<lparr>l_iocbs := (l_iocbs s)
                [i := io_read_setup (l_src_fd s) (l_src_off s) (c_buf cb) (ucast B)],
             l_submit_list := (l_submit_list s)[unat (l_num_to_submit s) := Some i],
             l_num_to_submit := l_num_to_submit s + 1,
             l_src_off := l_src_off s + uint B\<rparr>
         else s\<lparr>l_num_io_reqs := l_num_io_reqs s - 1\<rparr>)
      else s)"

text \<open>
  The events of one \<open>io_getevents\<close>: the kernel returns events only for control blocks
  in flight, each once; an element of the list that names no such block is no event.
\<close>

fun aio_events :: "32 word \<Rightarrow> aio_status \<Rightarrow> (nat \<times> int) list \<Rightarrow> aio_status" where
  "aio_events B s [] = s"
| "aio_events B s (ev # evs) =
     (if fst ev \<in> set (l_in_flight s)
      then aio_events B
             (aio_handle_event B (s\<lparr>l_in_flight := remove1 (fst ev) (l_in_flight s)\<rparr>) ev) evs
      else aio_events B s evs)"

fun aio_loop :: "32 word \<Rightarrow> aio_status \<Rightarrow> (nat \<times> int) list list \<Rightarrow> aio_status run" where
  "aio_loop B s [] = (if l_num_io_reqs s \<noteq> 0 then Waiting s else Returned s)"
| "aio_loop B s (evs # batches) =
     (if l_num_io_reqs s \<noteq> 0 then aio_loop B (aio_events B (io_submit s) evs) batches
      else Returned s)"

text \<open>
  \<open>main\<close> of \<open>linux-aio-cp.c\<close> up to the end of the copy loop; \<open>file_size\<close> is the size
  that \<open>open_src_file\<close> returned. \<open>aio_start\<close> is the part from the rounding to the end of
  the first loop, which \<open>main\<close> reaches when \<open>open_dst_file\<close> has returned. The contents
  of the files are not followed in this backend. \<open>aio_close_size\<close> is the size that the
  call of \<open>close_src_dst_files\<close> passes to \<open>ftruncate\<close>: the variable \<open>src_size\<close>, which
  holds the rounded size.
\<close>

definition aio_start :: "32 word \<Rightarrow> nat \<Rightarrow> 32 word \<Rightarrow> aio_status" where
  "aio_start B N file_size =
     (let s = aio_first_loop B N (aio_init B N file_size) 0
      in s\<lparr>l_num_to_submit := l_num_io_reqs s\<rparr>)"

definition aio_main :: "32 word \<Rightarrow> nat \<Rightarrow> 32 word \<Rightarrow> (nat \<times> int) list list \<Rightarrow> aio_status run" where
  "aio_main B N file_size batches =
     (case open_dst_file file_size of
        Inl e \<Rightarrow> Exited e
      | Inr dst \<Rightarrow> aio_loop B (aio_start B N file_size) batches)"

definition aio_close_size :: "aio_status \<Rightarrow> nat" where
  "aio_close_size s = unat (l_src_size s)"

section \<open>Steps, reachable states and their invariants\<close>

text \<open>
  The in-flight count: the number of slots that are not idle.
\<close>

definition in_flight_count :: "CopyStatus \<Rightarrow> nat" where
  "in_flight_count status =
     length (filter (\<lambda>b. stage b \<noteq> BLOCK_IDLE) (block_statuses status))"

text \<open>
  The steps of the driver on its own state: a read prepared on an idle cell (a pass of the
  first loop of \<open>main\<close>), the submission of the prepared entries, and the handling of a
  completion that does not exit. A state is reachable when steps lead to it from the
  state \<open>init_copying_status\<close> returns.
\<close>

inductive uring_step :: "32 word \<Rightarrow> nat \<Rightarrow> CopyStatus \<Rightarrow> CopyStatus \<Rightarrow> bool"
  for B :: "32 word" and N :: nat where
  step_read: "cell < N \<Longrightarrow> stage (block_statuses status ! cell) = BLOCK_IDLE \<Longrightarrow>
     uring_step B N status (prepare_read_request B status cell)"
| step_submit: "uring_step B N status (status\<lparr>sq := []\<rparr>)"
| step_completion: "cqe_user_data done_req < N \<Longrightarrow>
     handle_cqe B status done_req = Inr status' \<Longrightarrow> uring_step B N status status'"

inductive uring_reach :: "32 word \<Rightarrow> nat \<Rightarrow> 32 word \<Rightarrow> CopyStatus \<Rightarrow> bool"
  for B :: "32 word" and N :: nat and ssize :: "32 word" where
  reach_init: "uring_reach B N ssize (init_copying_status N ssize sfd dfd)"
| reach_step: "uring_reach B N ssize status \<Longrightarrow> uring_step B N status status' \<Longrightarrow>
     uring_reach B N ssize status'"

text \<open>
  What the counters of \<open>struct CopyStatus\<close> satisfy in every reachable state: the
  in-flight counter is the number of slots that are not idle, and the cursor lies between
  0 and the size of the source.
\<close>

definition uring_inv :: "nat \<Rightarrow> CopyStatus \<Rightarrow> bool" where
  "uring_inv N status \<longleftrightarrow>
     length (block_statuses status) = N
   \<and> unat (num_block_in_progress status) = in_flight_count status
   \<and> 0 \<le> src_off status \<and> src_off status \<le> uint (src_size status)"

text \<open>
  The size that \<open>prepare_read_request\<close> records on the slot.
\<close>

definition read_size :: "32 word \<Rightarrow> CopyStatus \<Rightarrow> 32 word" where
  "read_size B status =
     (if (word_of_int (uint (src_size status) - src_off status) :: 32 word) < B
      then word_of_int (uint (src_size status) - src_off status) else B)"

text \<open>
  Every request carries the index of a cell of the pool as its \<open>user_data\<close>.
\<close>

definition tagged :: "nat \<Rightarrow> io_uring_sqe list \<Rightarrow> bool" where
  "tagged N qs \<longleftrightarrow> list_all (\<lambda>q. sqe_user_data q < N) qs"

text \<open>
  The steps of \<open>main\<close> of \<open>linux-aio-cp.c\<close>: a pass of the first loop (its index \<open>aio_i\<close>
  equals \<open>num_io_reqs\<close>), the assignment \<open>num_to_submit = num_io_reqs\<close> after it, the
  submission, and the handling of an event for a control block in flight.
\<close>

inductive aio_step :: "32 word \<Rightarrow> nat \<Rightarrow> aio_status \<Rightarrow> aio_status \<Rightarrow> bool"
  for B :: "32 word" and N :: nat where
  aio_pass: "unat (l_num_io_reqs s) < N \<Longrightarrow> l_src_off s < uint (l_src_size s) \<Longrightarrow>
     l_in_flight s = [] \<Longrightarrow> l_num_to_submit s = 0 \<Longrightarrow>
     aio_step B N s (aio_first_pass B s (unat (l_num_io_reqs s)))"
| aio_begin: "l_in_flight s = [] \<Longrightarrow> aio_step B N s (s\<lparr>l_num_to_submit := l_num_io_reqs s\<rparr>)"
| aio_submit: "aio_step B N s (io_submit s)"
| aio_event: "i \<in> set (l_in_flight s) \<Longrightarrow>
     aio_step B N s
       (aio_handle_event B (s\<lparr>l_in_flight := remove1 i (l_in_flight s)\<rparr>) (i, r))"

inductive aio_reach :: "32 word \<Rightarrow> nat \<Rightarrow> 32 word \<Rightarrow> aio_status \<Rightarrow> bool"
  for B :: "32 word" and N :: nat and file_size :: "32 word" where
  aio_reach_init: "aio_reach B N file_size (aio_init B N file_size)"
| aio_reach_step: "aio_reach B N file_size s \<Longrightarrow> aio_step B N s s' \<Longrightarrow>
     aio_reach B N file_size s'"

text \<open>
  The counters and the cursor of \<open>linux-aio-cp.c\<close> in every reachable state: the control
  blocks in the kernel and those waiting for the next \<open>io_submit\<close> are counted by
  \<open>num_io_reqs\<close>, which stays within the pool; the cursor and the tracked size are
  multiples of the block size.
\<close>

definition aio_count_inv :: "nat \<Rightarrow> aio_status \<Rightarrow> bool" where
  "aio_count_inv N s \<longleftrightarrow>
     length (l_in_flight s) + unat (l_num_to_submit s) \<le> unat (l_num_io_reqs s)
   \<and> unat (l_num_io_reqs s) \<le> N"

definition aio_cursor_inv :: "32 word \<Rightarrow> aio_status \<Rightarrow> bool" where
  "aio_cursor_inv B s \<longleftrightarrow>
     0 \<le> l_src_off s \<and> l_src_off s \<le> uint (l_src_size s)
   \<and> uint B dvd l_src_off s \<and> uint B dvd uint (l_src_size s)"

text \<open>
  Runs of \<open>linux-aio-cp.c\<close> in which no completion has the result 0 while the cursor is
  below the tracked size (the read of the last block does return 0 when the block size
  divides the size of the file, but the cursor is at the tracked size from the moment
  that read is set up). \<open>eof_at_end_events\<close> follows \<open>aio_events\<close> and \<open>eof_at_end\<close>
  follows \<open>aio_loop\<close>. \<open>aio_done\<close> is what then holds of every state of the loop: once no
  request is left, the cursor has reached the tracked size.
\<close>

fun eof_at_end_events :: "32 word \<Rightarrow> aio_status \<Rightarrow> (nat \<times> int) list \<Rightarrow> bool" where
  "eof_at_end_events B s [] = True"
| "eof_at_end_events B s (ev # evs) =
     (if fst ev \<in> set (l_in_flight s)
      then (snd ev \<noteq> 0 \<or> uint (l_src_size s) \<le> l_src_off s)
         \<and> eof_at_end_events B
             (aio_handle_event B (s\<lparr>l_in_flight := remove1 (fst ev) (l_in_flight s)\<rparr>) ev) evs
      else eof_at_end_events B s evs)"

fun eof_at_end :: "32 word \<Rightarrow> aio_status \<Rightarrow> (nat \<times> int) list list \<Rightarrow> bool" where
  "eof_at_end B s [] = True"
| "eof_at_end B s (evs # batches) =
     (if l_num_io_reqs s \<noteq> 0
      then eof_at_end_events B (io_submit s) evs
         \<and> eof_at_end B (aio_events B (io_submit s) evs) batches
      else True)"

definition aio_done :: "aio_status \<Rightarrow> bool" where
  "aio_done s \<longleftrightarrow> l_num_io_reqs s \<noteq> 0 \<or> uint (l_src_size s) \<le> l_src_off s"

section \<open>The invariant of the copy\<close>

text \<open>
  Completions that transfer everything: the outcome \<open>want\<close> of every completion is at least
  the block size, so that the kernel transfers all the request and the file allow (a read
  at the end of the file still returns fewer bytes than asked).
\<close>

definition full_results :: "32 word \<Rightarrow> (nat \<times> int) list list \<Rightarrow> bool" where
  "full_results B batches = list_all (list_all (\<lambda>ev. uint B \<le> snd ev)) batches"

text \<open>
  The invariant of a run. A slot that is not idle has exactly one request pending
  (prepared or in the kernel), the request of its stage; its range
  \<open>[offset, offset + size)\<close> lies below the cursor and is a whole block or ends at the end
  of the source; in \<open>BLOCK_IN_WRITE\<close> its buffer starts with the bytes of the source in that
  range. Every byte of the source below the cursor is either in the range of a slot that
  is not idle, or already equal in the destination.
\<close>

definition request :: "32 word \<Rightarrow> CopyStatus \<Rightarrow> nat \<Rightarrow> io_uring_sqe" where
  "request B status cell =
     (let b = block_statuses status ! cell in
      \<lparr>sqe_opcode =
         (if stage b = BLOCK_IN_WRITE then IORING_OP_WRITE_FIXED else IORING_OP_READ_FIXED),
       sqe_fd = (if stage b = BLOCK_IN_WRITE then dst_fd status else src_fd status),
       sqe_buf_index = cell, sqe_len = B, sqe_off = offset b, sqe_user_data = cell\<rparr>)"

definition pending :: "CopyStatus \<Rightarrow> world \<Rightarrow> nat \<Rightarrow> io_uring_sqe list" where
  "pending status w cell = filter (\<lambda>q. sqe_user_data q = cell) (in_kernel w @ sq status)"

definition slot_ok :: "32 word \<Rightarrow> byte list \<Rightarrow> CopyStatus \<Rightarrow> world \<Rightarrow> nat \<Rightarrow> bool" where
  "slot_ok B src status w cell \<longleftrightarrow>
     (let b = block_statuses status ! cell in
      if stage b = BLOCK_IDLE then pending status w cell = []
      else pending status w cell = [request B status cell]
         \<and> 0 \<le> offset b \<and> offset b + uint (size_blk b) \<le> src_off status
         \<and> uint (size_blk b) \<le> uint B
         \<and> (uint (size_blk b) = uint B \<or> offset b + uint (size_blk b) = int (length src))
         \<and> (stage b = BLOCK_IN_WRITE \<longrightarrow>
               take (unat (size_blk b)) (fixed_buffers w ! cell)
                 = take (unat (size_blk b)) (drop (nat (offset b)) src)))"

definition covered :: "CopyStatus \<Rightarrow> nat \<Rightarrow> bool" where
  "covered status i \<longleftrightarrow>
     (\<exists>cell < length (block_statuses status).
        stage (block_statuses status ! cell) \<noteq> BLOCK_IDLE
      \<and> offset (block_statuses status ! cell) \<le> int i
      \<and> int i < offset (block_statuses status ! cell)
                  + uint (size_blk (block_statuses status ! cell)))"

definition copy_inv :: "32 word \<Rightarrow> nat \<Rightarrow> byte list \<Rightarrow> CopyStatus \<Rightarrow> world \<Rightarrow> bool" where
  "copy_inv B N src status w \<longleftrightarrow>
     uring_inv N status
   \<and> uint (src_size status) = int (length src)
   \<and> src_file w = src
   \<and> tagged N (sq status) \<and> tagged N (in_kernel w)
   \<and> length (fixed_buffers w) = N
   \<and> (\<forall>cell < N. length (fixed_buffers w ! cell) = unat B)
   \<and> (\<forall>cell < N. slot_ok B src status w cell)
   \<and> length src \<le> length (dst_file w)
   \<and> (\<forall>i < nat (src_off status). covered status i \<or> dst_file w ! i = src ! i)"

section \<open>Concrete states and runs\<close>

text \<open>
  States of the scenario \<open>S = 20000\<close> of the specification, with the constants of
  \<open>io-uring-cp.c\<close>: after the first loop of \<open>main\<close>, after its first two passes, and
  after the read of cell 0 has completed.
\<close>

definition scenario_20000 :: CopyStatus where
  "scenario_20000 =
     initial_reads READ_BLOCK_SIZE QUEUE_SIZE (init_copying_status QUEUE_SIZE 20000 3 4)"

definition two_reads_20000 :: CopyStatus where
  "two_reads_20000 =
     initial_reads READ_BLOCK_SIZE 2 (init_copying_status QUEUE_SIZE 20000 3 4)"

definition in_write_20000 :: CopyStatus where
  "in_write_20000 =
     prepare_write_request READ_BLOCK_SIZE scenario_20000 0"

text \<open>
  A small complete run of the ring backend for the witnesses: ten bytes, blocks of four
  bytes, two cells; every completion transfers all it can.
\<close>

definition small_src :: "byte list" where
  "small_src = [1, 2, 3, 4, 5, 6, 7, 8, 9, 10]"

definition small_bufs :: "byte list list" where
  "small_bufs = [[0, 0, 0, 0], [0, 0, 0, 0]]"

definition small_batches :: "(nat \<times> int) list list" where
  "small_batches = [[(1, 4), (0, 4)], [(0, 4), (1, 4)], [(0, 4)], [(0, 4)]]"

definition small_run :: "(CopyStatus \<times> world) run" where
  "small_run = uring_run 4 2 small_src small_bufs small_batches"

text \<open>
  The completions of a run of \<open>linux-aio-cp.c\<close> on a source of one block (8192 bytes):
  the read of cell 0 returns the block, the read of cell 1 (at offset 8192, the end of
  the file) returns 0, then the write of cell 0 completes.
\<close>

definition block_8192_events :: "(nat \<times> int) list list" where
  "block_8192_events = [[(0, 8192), (1, 0)], [(0, 8192)]]"

text \<open>
  A source of \<open>2 ^ 32 + 1\<close> bytes with the constants of \<open>io-uring-cp.c\<close>: \<open>open_src_file\<close>
  keeps the size 1, one block is read and written in full, and the destination is cut to
  one byte.
\<close>

definition large_src :: "byte list" where
  "large_src = replicate 4294967297 7"

definition zero_bufs :: "byte list list" where
  "zero_bufs = replicate 64 (replicate 8192 0)"

section \<open>Basic facts of the ring backend\<close>

lemma uint_word32_of_int: "uint (word_of_int k :: 32 word) = k mod 2 ^ 32"
  by (simp add: uint_word_of_int take_bit_eq_mod)

lemma bytes_left_uint:
  assumes "0 \<le> c" and "c \<le> uint (s :: 32 word)"
  shows "uint (word_of_int (uint s - c) :: 32 word) = uint s - c"
proof -
  have "uint s < 2 ^ 32"
    using uint_bounded [of s] by simp
  with assms have "0 \<le> uint s - c" and "uint s - c < 2 ^ 32"
    by simp_all
  then have "(uint s - c) mod 2 ^ 32 = uint s - c"
    by simp
  then show ?thesis
    by (simp only: uint_word32_of_int)
qed

lemma bytes_left_nonzero:
  assumes "0 \<le> c" and "c < uint (s :: 32 word)"
  shows "(word_of_int (uint s - c) :: 32 word) \<noteq> 0"
proof
  assume "(word_of_int (uint s - c) :: 32 word) = 0"
  then have "uint (word_of_int (uint s - c) :: 32 word) = 0"
    by simp
  moreover have "uint (word_of_int (uint s - c) :: 32 word) = uint s - c"
    using assms by (intro bytes_left_uint) simp_all
  ultimately show False
    using assms by simp
qed

lemma block_size_uint:
  "uint (if l < B then l else B :: 32 word) = min (uint B) (uint l)"
  by (simp add: word_less_def min_def)

section \<open>The transitions of a slot\<close>

text \<open>
  C2. In a state where the slot is idle and the read cursor \<open>src_off\<close> is below
  \<open>src_size\<close> (and not negative), \<open>prepare_read_request\<close> records on the slot the
  length \<open>min B (src_size - src_off)\<close> and the offset \<open>src_off\<close>, advances \<open>src_off\<close>
  by that length and sets the slot to \<open>BLOCK_IN_READ\<close>.
\<close>

theorem C2_submit_read:
  assumes "cell < length (block_statuses status)"
    and "stage (block_statuses status ! cell) = BLOCK_IDLE"
    and "0 \<le> src_off status"
    and "src_off status < uint (src_size status)"
  shows "let status' = prepare_read_request B status cell;
             block = block_statuses status' ! cell
         in uint (size_blk block) = min (uint B) (uint (src_size status) - src_off status)
          \<and> offset block = src_off status
          \<and> src_off status' = src_off status + uint (size_blk block)
          \<and> stage block = BLOCK_IN_READ"
proof -
  have nz: "(word_of_int (uint (src_size status) - src_off status) :: 32 word) \<noteq> 0"
    using assms(3,4) by (rule bytes_left_nonzero)
  have left: "uint (word_of_int (uint (src_size status) - src_off status) :: 32 word)
      = uint (src_size status) - src_off status"
    using assms(3,4) by (intro bytes_left_uint) simp_all
  show ?thesis
    using assms(1) nz left
    by (simp add: prepare_read_request_def Let_def block_size_uint)
qed

theorem C2_submit_read_witness:
  "2 < length (block_statuses two_reads_20000)
   \<and> stage (block_statuses two_reads_20000 ! 2) = BLOCK_IDLE
   \<and> 0 \<le> src_off two_reads_20000
   \<and> src_off two_reads_20000 < uint (src_size two_reads_20000)
   \<and> src_off two_reads_20000 = 16384
   \<and> (let status' = prepare_read_request READ_BLOCK_SIZE two_reads_20000 2;
           block = block_statuses status' ! 2
        in uint (size_blk block) = 3616 \<and> offset block = 16384
         \<and> src_off status' = 20000 \<and> stage block = BLOCK_IN_READ)"
proof -
  have h1: "2 < length (block_statuses two_reads_20000)"
    by code_simp
  have h2: "stage (block_statuses two_reads_20000 ! 2) = BLOCK_IDLE"
    by code_simp
  have h3: "0 \<le> src_off two_reads_20000"
    by code_simp
  have h4: "src_off two_reads_20000 < uint (src_size two_reads_20000)"
    by code_simp
  have h5: "src_off two_reads_20000 = 16384"
    by code_simp
  have h6: "uint (src_size two_reads_20000) = 20000"
    by code_simp
  have h7: "uint READ_BLOCK_SIZE = 8192"
    by code_simp
  show ?thesis
    using C2_submit_read [OF h1 h2 h3 h4, of READ_BLOCK_SIZE] h1 h2 h3 h4
    by (simp add: Let_def h5 h6 h7)
qed

text \<open>
  C9. When \<open>src_off\<close> equals \<open>src_size\<close>, \<open>prepare_read_request\<close> returns the state
  unchanged: every slot, the cursor, the in-flight count and the submission queue.
\<close>

theorem C9_read_at_end:
  assumes "src_off status = uint (src_size status)"
  shows "prepare_read_request B status cell = status"
  using assms by (simp add: prepare_read_request_def)

theorem C9_read_at_end_witness:
  "src_off scenario_20000 = uint (src_size scenario_20000)
   \<and> prepare_read_request READ_BLOCK_SIZE scenario_20000 3 = scenario_20000"
proof -
  have h: "src_off scenario_20000 = uint (src_size scenario_20000)"
    by code_simp
  show ?thesis
    using h C9_read_at_end [OF h] by simp
qed

text \<open>
  C10. A completion whose \<open>user_data\<close> names an idle slot takes neither branch of the
  completion loop: the state is unchanged and the run goes on.
\<close>

theorem C10_idle_completion:
  assumes "stage (block_statuses status ! cqe_user_data done_req) = BLOCK_IDLE"
  shows "handle_cqe B status done_req = Inr status"
  using assms by (simp add: handle_cqe_def)

theorem C10_idle_completion_witness:
  "stage (block_statuses scenario_20000 ! cqe_user_data \<lparr>cqe_user_data = 5, cqe_res = 8192\<rparr>)
     = BLOCK_IDLE
   \<and> handle_cqe READ_BLOCK_SIZE scenario_20000 \<lparr>cqe_user_data = 5, cqe_res = 8192\<rparr>
     = Inr scenario_20000"
proof -
  have h: "stage (block_statuses scenario_20000 ! cqe_user_data \<lparr>cqe_user_data = 5, cqe_res = 8192\<rparr>)
     = BLOCK_IDLE"
    by code_simp
  show ?thesis
    using h C10_idle_completion [OF h] by simp
qed

text \<open>
  C7. Let a read have been prepared on a slot (\<open>status1\<close>), and let \<open>status\<close> be any later
  state that still holds the slot as the read left it. A completion for the slot with a
  negative result exits; one with a result \<open>r \<ge> 0\<close> sets the slot to \<open>BLOCK_IN_WRITE\<close>
  and appends to the submission queue a write to \<open>dst_fd\<close> with the offset, the length
  and the buffer of the read request. The length of both requests is the block size
  \<open>B\<close>, also where the slot's \<open>size\<close> or the result \<open>r\<close> is smaller.
\<close>

theorem C7_read_completion:
  assumes "cell < length (block_statuses status0)"
    and "0 \<le> src_off status0"
    and "src_off status0 < uint (src_size status0)"
    and "status1 = prepare_read_request B status0 cell"
    and "length (block_statuses status) = length (block_statuses status1)"
    and "block_statuses status ! cell = block_statuses status1 ! cell"
  shows "(r < 0 \<longrightarrow> isl (handle_cqe B status \<lparr>cqe_user_data = cell, cqe_res = r\<rparr>))
    \<and> (0 \<le> r \<longrightarrow>
        (\<exists>status' rd wr.
           handle_cqe B status \<lparr>cqe_user_data = cell, cqe_res = r\<rparr> = Inr status'
         \<and> sq status1 = sq status0 @ [rd] \<and> sqe_opcode rd = IORING_OP_READ_FIXED
         \<and> sq status' = sq status @ [wr] \<and> sqe_opcode wr = IORING_OP_WRITE_FIXED
         \<and> sqe_fd wr = dst_fd status
         \<and> sqe_off wr = sqe_off rd \<and> sqe_len wr = sqe_len rd
         \<and> sqe_buf_index wr = sqe_buf_index rd \<and> sqe_user_data wr = sqe_user_data rd
         \<and> stage (block_statuses status' ! cell) = BLOCK_IN_WRITE
         \<and> offset (block_statuses status' ! cell) = offset (block_statuses status ! cell)
         \<and> size_blk (block_statuses status' ! cell) = size_blk (block_statuses status ! cell)
         \<and> src_off status' = src_off status
         \<and> num_block_in_progress status' = num_block_in_progress status))"
proof -
  have nz: "(word_of_int (uint (src_size status0) - src_off status0) :: 32 word) \<noteq> 0"
    using assms(2,3) by (rule bytes_left_nonzero)
  have rd: "stage (block_statuses status1 ! cell) = BLOCK_IN_READ"
    "offset (block_statuses status1 ! cell) = src_off status0"
    using assms(1) nz by (simp_all add: assms(4) prepare_read_request_def Let_def)
  have sq1: "sq status1 = sq status0 @ [\<lparr>sqe_opcode = IORING_OP_READ_FIXED,
      sqe_fd = src_fd status0, sqe_buf_index = cell, sqe_len = B,
      sqe_off = src_off status0, sqe_user_data = cell\<rparr>]"
    using nz by (simp add: assms(4) prepare_read_request_def Let_def)
  have len: "cell < length (block_statuses status)"
    using assms(1) nz by (simp add: assms(4,5) prepare_read_request_def Let_def)
  show ?thesis
    using rd sq1 len assms(6)
    by (simp add: handle_cqe_def prepare_write_request_def Let_def)
qed

theorem C7_read_completion_witness:
  "0 < length (block_statuses (init_copying_status QUEUE_SIZE 20000 3 4))
   \<and> 0 \<le> src_off (init_copying_status QUEUE_SIZE 20000 3 4)
   \<and> src_off (init_copying_status QUEUE_SIZE 20000 3 4)
       < uint (src_size (init_copying_status QUEUE_SIZE 20000 3 4))
   \<and> length (block_statuses scenario_20000)
       = length (block_statuses
           (prepare_read_request READ_BLOCK_SIZE (init_copying_status QUEUE_SIZE 20000 3 4) 0))
   \<and> block_statuses scenario_20000 ! 0
       = block_statuses
           (prepare_read_request READ_BLOCK_SIZE (init_copying_status QUEUE_SIZE 20000 3 4) 0) ! 0
   \<and> isl (handle_cqe READ_BLOCK_SIZE scenario_20000 \<lparr>cqe_user_data = 0, cqe_res = - 5\<rparr>)
   \<and> (\<exists>status' wr.
         handle_cqe READ_BLOCK_SIZE scenario_20000 \<lparr>cqe_user_data = 0, cqe_res = 8192\<rparr>
           = Inr status'
       \<and> sq status' = sq scenario_20000 @ [wr]
       \<and> sqe_opcode wr = IORING_OP_WRITE_FIXED \<and> sqe_off wr = 0 \<and> sqe_len wr = 8192
       \<and> stage (block_statuses status' ! 0) = BLOCK_IN_WRITE)"
proof -
  let ?s0 = "init_copying_status QUEUE_SIZE 20000 3 4"
  let ?s1 = "prepare_read_request READ_BLOCK_SIZE ?s0 0"
  have h1: "0 < length (block_statuses ?s0)"
    by code_simp
  have h2: "0 \<le> src_off ?s0"
    by code_simp
  have h3: "src_off ?s0 < uint (src_size ?s0)"
    by code_simp
  have h5: "length (block_statuses scenario_20000) = length (block_statuses ?s1)"
    by code_simp
  have h6: "block_statuses scenario_20000 ! 0 = block_statuses ?s1 ! 0"
    by code_simp
  have sq1: "sq ?s1 = [\<lparr>sqe_opcode = IORING_OP_READ_FIXED, sqe_fd = 3, sqe_buf_index = 0,
      sqe_len = 8192, sqe_off = 0, sqe_user_data = 0\<rparr>]"
    by code_simp
  note c7 = C7_read_completion [OF h1 h2 h3 refl h5 h6]
  have neg: "isl (handle_cqe READ_BLOCK_SIZE scenario_20000 \<lparr>cqe_user_data = 0, cqe_res = - 5\<rparr>)"
    using c7 [of "- 5"] by simp
  have pos: "\<exists>status' wr.
         handle_cqe READ_BLOCK_SIZE scenario_20000 \<lparr>cqe_user_data = 0, cqe_res = 8192\<rparr>
           = Inr status'
       \<and> sq status' = sq scenario_20000 @ [wr]
       \<and> sqe_opcode wr = IORING_OP_WRITE_FIXED \<and> sqe_off wr = 0 \<and> sqe_len wr = 8192
       \<and> stage (block_statuses status' ! 0) = BLOCK_IN_WRITE"
    using c7 [of 8192] unfolding sq1 by auto
  show ?thesis
    using h1 h2 h3 h5 h6 neg pos by simp
qed

text \<open>
  A write completion is checked for a negative result only: with any result \<open>r \<ge> 0\<close>,
  whatever the length of the request was, the slot is retired and offered to the next
  read.
\<close>

lemma write_completion_not_negative:
  assumes "stage (block_statuses status ! cell) = BLOCK_IN_WRITE" and "0 \<le> r"
  shows "handle_cqe B status \<lparr>cqe_user_data = cell, cqe_res = r\<rparr>
     = Inr (prepare_read_request B (finish_write_request status cell) cell)"
  using assms by (simp add: handle_cqe_def)

text \<open>
  C3. In the scenario \<open>S = 20000\<close>, the read of cell 0 completes and its write of 8192
  bytes is prepared; the completion of that write with the short result 100 does not
  exit: the slot becomes idle (no bytes are left to read) and the in-flight count drops
  from 3 to 2.
\<close>

theorem C3_short_write_accepted:
  "handle_cqe READ_BLOCK_SIZE scenario_20000 \<lparr>cqe_user_data = 0, cqe_res = 8192\<rparr>
     = Inr in_write_20000
   \<and> stage (block_statuses in_write_20000 ! 0) = BLOCK_IN_WRITE
   \<and> sqe_opcode (last (sq in_write_20000)) = IORING_OP_WRITE_FIXED
   \<and> sqe_user_data (last (sq in_write_20000)) = 0
   \<and> sqe_len (last (sq in_write_20000)) = 8192
   \<and> handle_cqe READ_BLOCK_SIZE in_write_20000 \<lparr>cqe_user_data = 0, cqe_res = 100\<rparr>
     = Inr (in_write_20000
         \<lparr>num_block_in_progress := 2,
          block_statuses := (block_statuses in_write_20000)
            [0 := \<lparr>stage = BLOCK_IDLE, offset = 0, size_blk = 8192\<rparr>]\<rparr>)"
  by code_simp

section \<open>Reachable states of the ring backend\<close>

lemma length_filter_update:
  "i < length xs \<Longrightarrow>
   length (filter P (xs[i := y])) + (if P (xs ! i) then 1 else 0)
     = length (filter P xs) + (if P y then 1 else 0)"
proof (induction xs arbitrary: i)
  case Nil
  then show ?case by simp
next
  case (Cons x xs)
  show ?case
  proof (cases i)
    case 0
    then show ?thesis by simp
  next
    case (Suc j)
    with Cons.prems have "j < length xs" by simp
    from Cons.IH [OF this] Suc show ?thesis by simp
  qed
qed

lemma in_flight_count_le: "in_flight_count status \<le> length (block_statuses status)"
  by (simp add: in_flight_count_def)

lemma in_flight_count_idle_less:
  assumes "cell < length (block_statuses status)"
    and "stage (block_statuses status ! cell) = BLOCK_IDLE"
  shows "in_flight_count status < length (block_statuses status)"
proof -
  have "block_statuses status ! cell \<in> set (block_statuses status)"
    using assms(1) by simp
  then show ?thesis
    unfolding in_flight_count_def using assms(2) by (intro length_filter_less) auto
qed

lemma unat_succ16:
  assumes "unat (x :: 16 word) < 65535"
  shows "unat (x + 1) = unat x + 1"
proof -
  have "unat x + unat (1 :: 16 word) < 2 ^ LENGTH(16)"
    using assms by simp
  then have "unat (x + 1) = unat x + unat (1 :: 16 word)"
    by (simp only: unat_add_lem)
  then show ?thesis by simp
qed

lemma prepare_read_request_done:
  "src_off status = uint (src_size status) \<Longrightarrow> prepare_read_request B status cell = status"
  by (simp add: prepare_read_request_def)

lemma uint_read_size:
  assumes "0 \<le> src_off status" and "src_off status \<le> uint (src_size status)"
  shows "uint (read_size B status) = min (uint B) (uint (src_size status) - src_off status)"
proof -
  have "uint (word_of_int (uint (src_size status) - src_off status) :: 32 word)
      = uint (src_size status) - src_off status"
    using assms by (rule bytes_left_uint)
  then show ?thesis
    unfolding read_size_def by (simp only: block_size_uint)
qed

lemma prepare_read_request_more:
  assumes "0 \<le> src_off status" and "src_off status < uint (src_size status)"
  shows "prepare_read_request B status cell = status
       \<lparr>src_off := src_off status + uint (read_size B status),
        num_block_in_progress := num_block_in_progress status + 1,
        block_statuses := (block_statuses status)
          [cell := (block_statuses status ! cell)
             \<lparr>stage := BLOCK_IN_READ, offset := src_off status,
              size_blk := read_size B status\<rparr>],
        sq := sq status @
          [\<lparr>sqe_opcode = IORING_OP_READ_FIXED, sqe_fd = src_fd status, sqe_buf_index = cell,
            sqe_len = B, sqe_off = src_off status, sqe_user_data = cell\<rparr>]\<rparr>"
proof -
  define l where "l = (word_of_int (uint (src_size status) - src_off status) :: 32 word)"
  have nz: "l \<noteq> 0"
    unfolding l_def using assms by (rule bytes_left_nonzero)
  have eq: "prepare_read_request B status cell =
      (let bytes_left = l in
      if bytes_left = 0 then status
      else
        let block = (block_statuses status ! cell)
              \<lparr>stage := BLOCK_IN_READ,
               offset := src_off status,
               size_blk := (if bytes_left < B then bytes_left else B)\<rparr>;
            read_sqe = \<lparr>sqe_opcode = IORING_OP_READ_FIXED, sqe_fd = src_fd status,
               sqe_buf_index = cell, sqe_len = B, sqe_off = offset block,
               sqe_user_data = cell\<rparr>
        in status
             \<lparr>src_off := src_off status + uint (size_blk block),
              num_block_in_progress := num_block_in_progress status + 1,
              block_statuses := (block_statuses status)[cell := block],
              sq := sq status @ [read_sqe]\<rparr>)"
    unfolding l_def prepare_read_request_def ..
  have rs: "read_size B status = (if l < B then l else B)"
    unfolding l_def read_size_def ..
  show ?thesis
    unfolding eq rs using nz by (simp add: Let_def)
qed

lemma prepare_read_request_cursor:
  assumes "0 \<le> src_off status" and "src_off status \<le> uint (src_size status)"
  shows "src_off status \<le> src_off (prepare_read_request B status cell)"
    and "src_off (prepare_read_request B status cell) \<le> uint (src_size status)"
proof -
  have "src_off status \<le> src_off (prepare_read_request B status cell)
      \<and> src_off (prepare_read_request B status cell) \<le> uint (src_size status)"
  proof (cases "src_off status = uint (src_size status)")
    case True
    then show ?thesis by (simp add: prepare_read_request_done)
  next
    case False
    with assms(2) have lt: "src_off status < uint (src_size status)"
      by simp
    show ?thesis
      using lt assms(1) uint_read_size [OF assms, of B]
      by (simp add: prepare_read_request_more [OF assms(1) lt])
  qed
  then show "src_off status \<le> src_off (prepare_read_request B status cell)"
    and "src_off (prepare_read_request B status cell) \<le> uint (src_size status)"
    by simp_all
qed

lemma prepare_read_request_frame:
  "src_size (prepare_read_request B status cell) = src_size status"
  "length (block_statuses (prepare_read_request B status cell))
     = length (block_statuses status)"
  by (simp_all add: prepare_read_request_def Let_def)

lemma prepare_read_request_count:
  assumes "cell < length (block_statuses status)"
    and "stage (block_statuses status ! cell) = BLOCK_IDLE"
    and "unat (num_block_in_progress status) = in_flight_count status"
    and "length (block_statuses status) < 65536"
    and "0 \<le> src_off status" and "src_off status \<le> uint (src_size status)"
  shows "unat (num_block_in_progress (prepare_read_request B status cell))
      = in_flight_count (prepare_read_request B status cell)"
proof (cases "src_off status = uint (src_size status)")
  case True
  then show ?thesis
    using assms(3) by (simp add: prepare_read_request_done)
next
  case False
  with assms(6) have lt: "src_off status < uint (src_size status)"
    by simp
  note eq = prepare_read_request_more [OF assms(5) lt, of B cell]
  have upd: "in_flight_count (prepare_read_request B status cell) = in_flight_count status + 1"
    unfolding eq
    using length_filter_update [OF assms(1), of "\<lambda>b. stage b \<noteq> BLOCK_IDLE"
      "(block_statuses status ! cell)
         \<lparr>stage := BLOCK_IN_READ, offset := src_off status,
          size_blk := read_size B status\<rparr>"] assms(2)
    by (simp add: in_flight_count_def)
  have "in_flight_count status < length (block_statuses status)"
    using assms(1,2) by (rule in_flight_count_idle_less)
  then have "unat (num_block_in_progress status) < 65535"
    using assms(3,4) by simp
  then have "unat (num_block_in_progress status + 1) = unat (num_block_in_progress status) + 1"
    by (rule unat_succ16)
  then show ?thesis
    using upd assms(3) by (simp add: eq)
qed

lemma uring_inv_prepare_read:
  assumes "uring_inv N status" and "N < 65536" and "cell < N"
    and "stage (block_statuses status ! cell) = BLOCK_IDLE"
  shows "uring_inv N (prepare_read_request B status cell)"
  using assms prepare_read_request_cursor [of status B cell]
    prepare_read_request_count [of cell status B]
  by (simp add: uring_inv_def prepare_read_request_frame)

lemma uring_inv_prepare_write:
  assumes "uring_inv N status" and "cell < N"
    and "stage (block_statuses status ! cell) = BLOCK_IN_READ"
  shows "uring_inv N (prepare_write_request B status cell)"
proof -
  have "cell < length (block_statuses status)"
    using assms by (simp add: uring_inv_def)
  from length_filter_update [OF this, of "\<lambda>b. stage b \<noteq> BLOCK_IDLE"
      "(block_statuses status ! cell)\<lparr>stage := BLOCK_IN_WRITE\<rparr>"] assms
  show ?thesis
    by (simp add: uring_inv_def prepare_write_request_def in_flight_count_def Let_def)
qed

lemma uring_inv_finish_write:
  assumes "uring_inv N status" and "cell < N"
    and "stage (block_statuses status ! cell) = BLOCK_IN_WRITE"
  shows "uring_inv N (finish_write_request status cell)"
    and "stage (block_statuses (finish_write_request status cell) ! cell) = BLOCK_IDLE"
proof -
  have len: "cell < length (block_statuses status)"
    using assms by (simp add: uring_inv_def)
  have upd: "in_flight_count (finish_write_request status cell) + 1 = in_flight_count status"
    using length_filter_update [OF len, of "\<lambda>b. stage b \<noteq> BLOCK_IDLE"
      "(block_statuses status ! cell)\<lparr>stage := BLOCK_IDLE\<rparr>"] assms(3)
    by (simp add: finish_write_request_def in_flight_count_def Let_def)
  then have "unat (num_block_in_progress status) \<noteq> 0"
    using assms(1) by (simp add: uring_inv_def)
  then have "num_block_in_progress status \<noteq> 0"
    by auto
  then have "unat (num_block_in_progress status - 1) = unat (num_block_in_progress status) - 1"
    by (rule unat_minus_one)
  then show "uring_inv N (finish_write_request status cell)"
    using assms(1) upd by (simp add: uring_inv_def finish_write_request_def Let_def)
  show "stage (block_statuses (finish_write_request status cell) ! cell) = BLOCK_IDLE"
    using len by (simp add: finish_write_request_def Let_def)
qed

lemma uring_inv_handle_cqe:
  assumes "uring_inv N status" and "N < 65536" and "cqe_user_data done_req < N"
    and "handle_cqe B status done_req = Inr status'"
  shows "uring_inv N status'"
proof (cases "stage (block_statuses status ! cqe_user_data done_req)")
  case BLOCK_IDLE
  then show ?thesis
    using assms by (simp add: handle_cqe_def Let_def)
next
  case BLOCK_IN_READ
  then show ?thesis
    using assms uring_inv_prepare_write [OF assms(1,3), of B]
    by (auto simp: handle_cqe_def Let_def split: if_splits)
next
  case BLOCK_IN_WRITE
  from uring_inv_finish_write [OF assms(1,3) this]
  have "uring_inv N
      (prepare_read_request B (finish_write_request status (cqe_user_data done_req))
         (cqe_user_data done_req))"
    using assms(2,3) by (intro uring_inv_prepare_read) simp_all
  then show ?thesis
    using assms(4) BLOCK_IN_WRITE by (auto simp: handle_cqe_def Let_def split: if_splits)
qed

lemma prepare_read_request_other:
  "c \<noteq> cell \<Longrightarrow>
   block_statuses (prepare_read_request B status cell) ! c = block_statuses status ! c"
  by (simp add: prepare_read_request_def Let_def)

lemma initial_reads_Suc:
  "initial_reads B (Suc k) status = prepare_read_request B (initial_reads B k status) k"
  by (simp add: initial_reads_def)

lemma uring_inv_init:
  "uring_inv N (init_copying_status N ssize sfd dfd)"
  by (simp add: uring_inv_def init_copying_status_def in_flight_count_def)

lemma uring_inv_step:
  assumes "uring_inv N status" and "N < 65536" and "uring_step B N status status'"
  shows "uring_inv N status'"
  using assms(3)
proof cases
  case (step_read cell)
  then show ?thesis
    using assms(1,2) by (simp add: uring_inv_prepare_read)
next
  case step_submit
  then show ?thesis
    using assms(1) by (simp add: uring_inv_def in_flight_count_def)
next
  case (step_completion done_req)
  then show ?thesis
    using assms(1,2) uring_inv_handle_cqe [of N status done_req B status'] by simp
qed

lemma uring_reach_inv:
  assumes "uring_reach B N ssize status" and "N < 65536"
  shows "uring_inv N status"
  using assms
proof (induction rule: uring_reach.induct)
  case (reach_init sfd dfd)
  show ?case
    by (rule uring_inv_init)
next
  case (reach_step status status')
  then show ?case
    using uring_inv_step [of N status B status'] by simp
qed

text \<open>The cursor alone: no bound on \<open>N\<close> is needed.\<close>

lemma handle_cqe_cursor:
  assumes "0 \<le> src_off status" and "src_off status \<le> uint (src_size status)"
    and "handle_cqe B status done_req = Inr status'"
  shows "src_off status \<le> src_off status' \<and> src_off status' \<le> uint (src_size status')
    \<and> src_size status' = src_size status"
proof -
  let ?c = "cqe_user_data done_req"
  let ?f = "finish_write_request status ?c"
  have f: "src_off ?f = src_off status" "src_size ?f = src_size status"
    by (simp_all add: finish_write_request_def Let_def)
  have "src_off ?f \<le> src_off (prepare_read_request B ?f ?c)"
    and "src_off (prepare_read_request B ?f ?c) \<le> uint (src_size ?f)"
    using assms(1,2) prepare_read_request_cursor [of ?f B ?c] by (simp_all add: f)
  then have "src_off status \<le> src_off (prepare_read_request B ?f ?c)
    \<and> src_off (prepare_read_request B ?f ?c) \<le> uint (src_size (prepare_read_request B ?f ?c))
    \<and> src_size (prepare_read_request B ?f ?c) = src_size status"
    by (simp add: f prepare_read_request_frame)
  moreover have "src_off (prepare_write_request B status ?c) = src_off status"
    "src_size (prepare_write_request B status ?c) = src_size status"
    by (simp_all add: prepare_write_request_def Let_def)
  ultimately show ?thesis
    using assms by (auto simp: handle_cqe_def Let_def split: if_splits)
qed

lemma uring_step_cursor:
  assumes "0 \<le> src_off status" and "src_off status \<le> uint (src_size status)"
    and "uring_step B N status status'"
  shows "src_off status \<le> src_off status' \<and> src_off status' \<le> uint (src_size status')
    \<and> src_size status' = src_size status"
  using assms(3)
proof cases
  case (step_read cell)
  then show ?thesis
    using assms(1,2) prepare_read_request_cursor [OF assms(1,2), of B cell]
    by (simp add: prepare_read_request_frame)
next
  case step_submit
  then show ?thesis
    using assms by simp
next
  case (step_completion done_req)
  then show ?thesis
    using handle_cqe_cursor [OF assms(1,2), of B done_req status'] by auto
qed

lemma uring_reach_cursor:
  assumes "uring_reach B N ssize status"
  shows "0 \<le> src_off status \<and> src_off status \<le> uint ssize \<and> src_size status = ssize"
  using assms
proof (induction rule: uring_reach.induct)
  case (reach_init sfd dfd)
  show ?case
    by (simp add: init_copying_status_def)
next
  case (reach_step status status')
  then show ?case
    using uring_step_cursor [of status B N status'] by auto
qed

text \<open>The states of the first loop of \<open>main\<close> are reachable.\<close>

lemma initial_reads_idle:
  "k \<le> c \<Longrightarrow> c < N \<Longrightarrow>
   stage (block_statuses (initial_reads B k (init_copying_status N ssize sfd dfd)) ! c)
     = BLOCK_IDLE"
proof (induction k)
  case 0
  then show ?case
    by (simp add: initial_reads_def init_copying_status_def)
next
  case (Suc k)
  then show ?case
    by (simp add: initial_reads_Suc prepare_read_request_other)
qed

lemma initial_reads_reach:
  "k \<le> N \<Longrightarrow> uring_reach B N ssize (initial_reads B k (init_copying_status N ssize sfd dfd))"
proof (induction k)
  case 0
  show ?case
    by (simp add: initial_reads_def reach_init)
next
  case (Suc k)
  then have "uring_reach B N ssize (initial_reads B k (init_copying_status N ssize sfd dfd))"
    and "k < N"
    by simp_all
  moreover from \<open>k < N\<close>
  have "stage (block_statuses (initial_reads B k (init_copying_status N ssize sfd dfd)) ! k)
      = BLOCK_IDLE"
    by (intro initial_reads_idle) simp_all
  ultimately show ?case
    unfolding initial_reads_Suc using reach_step [OF _ step_read] by blast
qed

section \<open>Reachable states of the native AIO backend\<close>

lemma round_file_size_int:
  "round_file_size B file_size
     = word_of_int (uint file_size + uint B - uint file_size mod uint B)"
  by (simp add: round_file_size_def word_mod_def)

lemma uint_round_file_size:
  "uint (round_file_size B file_size)
     = (uint file_size + uint B - uint file_size mod uint B) mod 2 ^ 32"
  by (simp only: round_file_size_int uint_word32_of_int)

lemma round_file_size_dvd:
  assumes "uint B dvd 2 ^ 32"
  shows "uint B dvd uint (round_file_size B file_size)"
proof -
  have "uint B dvd uint file_size - uint file_size mod uint B"
    by (simp add: minus_mod_eq_mult_div)
  then have "uint B dvd uint file_size + uint B - uint file_size mod uint B"
    by (metis add_diff_eq diff_add_eq dvd_add_triv_right_iff)
  with assms show ?thesis
    unfolding uint_round_file_size by (simp add: dvd_mod)
qed

lemma multiple_step:
  assumes "(b::int) dvd x" and "b dvd y" and "x < y" and "0 < b"
  shows "x + b \<le> y"
proof -
  have "b dvd y - x" using assms(1,2) by simp
  moreover have "0 < y - x" using assms(3) by simp
  ultimately have "b \<le> y - x" by (rule zdvd_imp_le)
  then show ?thesis by simp
qed

lemma unat_succ64:
  assumes "unat (x :: 64 word) < n" and "n \<le> unat (y :: 64 word)"
  shows "unat (x + 1) = unat x + 1"
proof -
  have "unat y < 2 ^ 64"
    using unsigned_less [of y] by simp
  with assms have "unat x + unat (1 :: 64 word) < 2 ^ LENGTH(64)"
    by simp
  then have "unat (x + 1) = unat x + unat (1 :: 64 word)"
    by (simp only: unat_add_lem)
  then show ?thesis by simp
qed

lemma uint_pos:
  "B \<noteq> 0 \<Longrightarrow> 0 < uint (B :: 32 word)"
  by (simp add: word_greater_zero_iff uint_0_iff less_le)

lemma aio_count_step:
  assumes "aio_count_inv N s" and "N < 2 ^ 64" and "aio_step B N s s'"
  shows "aio_count_inv N s'"
  using assms(3)
proof cases
  case aio_pass
  have "unat (l_num_io_reqs s) + unat (1 :: 64 word) < 2 ^ LENGTH(64)"
    using aio_pass(2) assms(2) by simp
  then have "unat (l_num_io_reqs s + 1) = unat (l_num_io_reqs s) + unat (1 :: 64 word)"
    by (simp only: unat_add_lem)
  then show ?thesis
    using aio_pass assms(1) by (simp add: aio_count_inv_def aio_first_pass_def)
next
  case aio_begin
  then show ?thesis
    using assms(1) by (simp add: aio_count_inv_def)
next
  case aio_submit
  have "length (List.map_filter (\<lambda>p. p) (take (unat (l_num_to_submit s)) (l_submit_list s)))
      \<le> unat (l_num_to_submit s)"
  proof -
    have "length (filter (\<lambda>p. p \<noteq> None) (take (unat (l_num_to_submit s)) (l_submit_list s)))
        \<le> length (take (unat (l_num_to_submit s)) (l_submit_list s))"
      by (rule length_filter_le)
    also have "\<dots> \<le> unat (l_num_to_submit s)"
      by simp
    finally show ?thesis
      by (simp add: map_filter_def)
  qed
  then show ?thesis
    using assms(1) aio_submit by (simp add: aio_count_inv_def io_submit_def)
next
  case (aio_event i r)
  have len: "length (remove1 i (l_in_flight s)) + 1 = length (l_in_flight s)"
    using aio_event(2) by (simp add: length_remove1) (metis length_pos_if_in_set Suc_pred)
  then have nts: "unat (l_num_to_submit s) < unat (l_num_io_reqs s)"
    using assms(1) by (simp add: aio_count_inv_def)
  then have suc: "unat (l_num_to_submit s + 1) = unat (l_num_to_submit s) + 1"
    by (rule unat_succ64) (rule order_refl)
  have "l_num_io_reqs s \<noteq> 0"
    using nts by auto
  then have pred: "unat (l_num_io_reqs s - 1) = unat (l_num_io_reqs s) - 1"
    by (rule unat_minus_one)
  show ?thesis
    using assms(1) len nts suc pred
    by (auto simp: aio_event(1) aio_count_inv_def aio_handle_event_def Let_def)
qed

lemma aio_cursor_step:
  assumes "aio_cursor_inv B s" and "B \<noteq> 0" and "aio_step B N s s'"
  shows "aio_cursor_inv B s' \<and> l_src_off s \<le> l_src_off s' \<and> l_src_size s' = l_src_size s"
proof -
  have pos: "0 < uint B"
    using assms(2) by (rule uint_pos)
  have step: "l_src_off s + uint B \<le> uint (l_src_size s)" if "l_src_off s < uint (l_src_size s)"
    using assms(1) that pos by (intro multiple_step) (simp_all add: aio_cursor_inv_def)
  from assms(3) show ?thesis
  proof cases
    case aio_pass
    then show ?thesis
      using assms(1) step pos by (simp add: aio_cursor_inv_def aio_first_pass_def)
  next
    case aio_begin
    then show ?thesis
      using assms(1) by (simp add: aio_cursor_inv_def)
  next
    case aio_submit
    then show ?thesis
      using assms(1) by (simp add: aio_cursor_inv_def io_submit_def)
  next
    case (aio_event i r)
    then show ?thesis
      using assms(1) step pos by (auto simp: aio_cursor_inv_def aio_handle_event_def Let_def)
  qed
qed

lemma aio_reach_count:
  assumes "aio_reach B N file_size s" and "N < 2 ^ 64"
  shows "aio_count_inv N s"
  using assms
proof (induction rule: aio_reach.induct)
  case aio_reach_init
  show ?case
    by (simp add: aio_count_inv_def aio_init_def)
next
  case (aio_reach_step s s')
  then show ?case
    using aio_count_step [of N s B s'] by simp
qed

lemma aio_reach_cursor:
  assumes "aio_reach B N file_size s" and "uint B dvd 2 ^ 32" and "B \<noteq> 0"
  shows "aio_cursor_inv B s \<and> l_src_size s = round_file_size B file_size"
  using assms
proof (induction rule: aio_reach.induct)
  case aio_reach_init
  then show ?case
    using round_file_size_dvd [of B file_size] by (simp add: aio_cursor_inv_def aio_init_def)
next
  case (aio_reach_step s s')
  then show ?case
    using aio_cursor_step [of B s N s'] by auto
qed

text \<open>The states of the first loop and of the copy loop are reachable.\<close>

lemma aio_first_loop_reach:
  "aio_reach B N file_size s \<Longrightarrow> unat (l_num_io_reqs s) = aio_i \<Longrightarrow> k \<le> N \<Longrightarrow> N < 2 ^ 64 \<Longrightarrow>
   l_in_flight s = [] \<Longrightarrow> l_num_to_submit s = 0 \<Longrightarrow>
     aio_reach B N file_size (aio_first_loop B k s aio_i)
   \<and> l_in_flight (aio_first_loop B k s aio_i) = []"
proof (induction B k s aio_i rule: aio_first_loop.induct)
  case (1 B k s aio_i)
  show ?case
  proof (cases "aio_i < k \<and> l_src_off s < uint (l_src_size s)")
    case True
    then have lt: "unat (l_num_io_reqs s) < N" and lt2: "l_src_off s < uint (l_src_size s)"
      using "1.prems"(2,3) by simp_all
    have st: "aio_step B N s (aio_first_pass B s aio_i)"
      using aio_pass [OF lt lt2 "1.prems"(5,6), of B] "1.prems"(2) by simp
    have r: "aio_reach B N file_size (aio_first_pass B s aio_i)"
      using "1.prems"(1) st by (rule aio_reach_step)
    have "unat (l_num_io_reqs s) + unat (1 :: 64 word) < 2 ^ LENGTH(64)"
      using lt "1.prems"(4) by simp
    then have "unat (l_num_io_reqs s + 1) = unat (l_num_io_reqs s) + unat (1 :: 64 word)"
      by (simp only: unat_add_lem)
    then have n: "unat (l_num_io_reqs (aio_first_pass B s aio_i)) = Suc aio_i"
      using "1.prems"(2) by (simp add: aio_first_pass_def)
    have fl: "l_in_flight (aio_first_pass B s aio_i) = []"
      using "1.prems"(5) by (simp add: aio_first_pass_def)
    have ts: "l_num_to_submit (aio_first_pass B s aio_i) = 0"
      using "1.prems"(6) by (simp add: aio_first_pass_def)
    have "aio_reach B N file_size (aio_first_loop B k (aio_first_pass B s aio_i) (Suc aio_i))
      \<and> l_in_flight (aio_first_loop B k (aio_first_pass B s aio_i) (Suc aio_i)) = []"
      using True r n "1.prems"(3,4) fl ts by (rule "1.IH")
    moreover have "aio_first_loop B k s aio_i
        = aio_first_loop B k (aio_first_pass B s aio_i) (Suc aio_i)"
      using True by (subst aio_first_loop.simps) simp
    ultimately show ?thesis
      by simp
  next
    case False
    have "aio_first_loop B k s aio_i = s"
      by (subst aio_first_loop.simps) (simp only: False if_False)
    then show ?thesis
      using "1.prems" by simp
  qed
qed

lemma aio_start_reach:
  assumes "N < 2 ^ 64"
  shows "aio_reach B N file_size (aio_start B N file_size)"
proof -
  have "aio_reach B N file_size (aio_first_loop B N (aio_init B N file_size) 0)
    \<and> l_in_flight (aio_first_loop B N (aio_init B N file_size) 0) = []"
    using assms by (intro aio_first_loop_reach) (simp_all add: aio_reach_init, simp_all add: aio_init_def)
  then show ?thesis
    unfolding aio_start_def Let_def using aio_reach_step [OF _ aio_begin] by blast
qed

lemma aio_events_reach:
  "aio_reach B N file_size s \<Longrightarrow> aio_reach B N file_size (aio_events B s evs)"
proof (induction evs arbitrary: s)
  case Nil
  then show ?case by simp
next
  case (Cons ev evs)
  show ?case
  proof (cases "fst ev \<in> set (l_in_flight s)")
    case True
    then have "aio_step B N s
       (aio_handle_event B (s\<lparr>l_in_flight := remove1 (fst ev) (l_in_flight s)\<rparr>) (fst ev, snd ev))"
      by (rule aio_event)
    with Cons.prems have "aio_reach B N file_size
       (aio_handle_event B (s\<lparr>l_in_flight := remove1 (fst ev) (l_in_flight s)\<rparr>) (fst ev, snd ev))"
      by (rule aio_reach_step)
    then have "aio_reach B N file_size
       (aio_handle_event B (s\<lparr>l_in_flight := remove1 (fst ev) (l_in_flight s)\<rparr>) ev)"
      by simp
    from Cons.IH [OF this] True show ?thesis
      by simp
  next
    case False
    then show ?thesis
      using Cons by simp
  qed
qed

lemma aio_loop_reach:
  "aio_reach B N file_size s \<Longrightarrow>
   aio_loop B s batches = Returned s' \<or> aio_loop B s batches = Waiting s' \<Longrightarrow>
   aio_reach B N file_size s'"
proof (induction batches arbitrary: s)
  case Nil
  then show ?case
    by (auto split: if_splits)
next
  case (Cons evs batches)
  show ?case
  proof (cases "l_num_io_reqs s \<noteq> 0")
    case True
    have "aio_reach B N file_size (io_submit s)"
      using Cons.prems(1) aio_submit by (rule aio_reach_step)
    then have "aio_reach B N file_size (aio_events B (io_submit s) evs)"
      by (rule aio_events_reach)
    from Cons.IH [OF this] Cons.prems(2) True show ?thesis
      by simp
  next
    case False
    then show ?thesis
      using Cons.prems by auto
  qed
qed

lemma tagged_simps:
  "tagged N []" "tagged N (xs @ ys) \<longleftrightarrow> tagged N xs \<and> tagged N ys"
  "tagged N [q] \<longleftrightarrow> sqe_user_data q < N"
  by (simp_all add: tagged_def)

text \<open>
  The states of the copy loop of the ring backend are reachable.
\<close>

lemma prepare_read_request_tagged:
  "tagged N (sq status) \<Longrightarrow> cell < N \<Longrightarrow> tagged N (sq (prepare_read_request B status cell))"
  by (simp add: prepare_read_request_def Let_def tagged_simps)

lemma handle_cqe_tagged:
  assumes "tagged N (sq status)" and "cqe_user_data done_req < N"
    and "handle_cqe B status done_req = Inr status'"
  shows "tagged N (sq status')"
proof -
  have "sq (finish_write_request status c) = sq status" for c
    by (simp add: finish_write_request_def Let_def)
  then have "tagged N (sq (prepare_read_request B (finish_write_request status (cqe_user_data done_req))
      (cqe_user_data done_req)))"
    using assms(1,2) by (intro prepare_read_request_tagged) simp_all
  moreover have "tagged N (sq (prepare_write_request B status (cqe_user_data done_req)))"
    using assms(1,2) by (simp add: prepare_write_request_def Let_def tagged_simps)
  ultimately show ?thesis
    using assms by (auto simp: handle_cqe_def Let_def split: if_splits)
qed

lemma initial_reads_tagged:
  "k \<le> N \<Longrightarrow> tagged N (sq (initial_reads B k (init_copying_status N ssize sfd dfd)))"
proof (induction k)
  case 0
  show ?case
    by (simp add: initial_reads_def init_copying_status_def tagged_simps)
next
  case (Suc k)
  then show ?case
    by (simp add: initial_reads_Suc prepare_read_request_tagged)
qed

lemma kernel_complete_tagged:
  assumes "kernel_complete w cell want = Some (done_req, w')" and "tagged N (in_kernel w)"
  shows "cqe_user_data done_req < N \<and> tagged N (in_kernel w')"
proof -
  from assms(1) obtain q where f: "find (\<lambda>q. sqe_user_data q = cell) (in_kernel w) = Some q"
    by (auto simp: kernel_complete_def split: option.splits)
  then have q: "q \<in> set (in_kernel w)" "sqe_user_data q = cell"
    by (auto simp: find_Some_iff)
  then have c: "cell < N"
    using assms(2) by (auto simp: tagged_def list_all_iff)
  have "set (remove1 q (in_kernel w)) \<subseteq> set (in_kernel w)"
    by (rule set_remove1_subset)
  then have t: "tagged N (remove1 q (in_kernel w))"
    using assms(2) by (auto simp: tagged_def list_all_iff)
  have "cqe_user_data done_req = cell \<and> in_kernel w' = remove1 q (in_kernel w)"
    using assms(1) f
    by (auto simp: kernel_complete_def Let_def split: if_splits io_op.splits)
  then show ?thesis
    using c t by simp
qed

lemma drain_reach:
  "uring_reach B N ssize (fst sw) \<Longrightarrow> tagged N (sq (fst sw)) \<Longrightarrow> tagged N (in_kernel (snd sw)) \<Longrightarrow>
   drain B sw evs = Inr sw' \<Longrightarrow>
   uring_reach B N ssize (fst sw') \<and> tagged N (sq (fst sw')) \<and> tagged N (in_kernel (snd sw'))"
proof (induction evs arbitrary: sw)
  case Nil
  then show ?case by simp
next
  case (Cons ev evs)
  show ?case
  proof (cases "kernel_complete (snd sw) (fst ev) (snd ev)")
    case None
    then show ?thesis
      using Cons by simp
  next
    case (Some a)
    obtain done_req w' where a: "a = (done_req, w')"
      by (cases a)
    from kernel_complete_tagged [OF Some [unfolded a] Cons.prems(3)]
    have u: "cqe_user_data done_req < N" and t: "tagged N (in_kernel w')"
      by simp_all
    from Cons.prems(4) Some a obtain status' where
      h: "handle_cqe B (fst sw) done_req = Inr status'" and d: "drain B (status', w') evs = Inr sw'"
      by (auto split: sum.splits)
    have "uring_step B N (fst sw) status'"
      using u h by (rule step_completion)
    with Cons.prems(1) have "uring_reach B N ssize status'"
      by (rule reach_step)
    moreover have "tagged N (sq status')"
      using Cons.prems(2) u h by (rule handle_cqe_tagged)
    ultimately show ?thesis
      using Cons.IH [of "(status', w')"] t d by simp
  qed
qed

lemma copy_loop_reach:
  "uring_reach B N ssize (fst sw) \<Longrightarrow> tagged N (sq (fst sw)) \<Longrightarrow> tagged N (in_kernel (snd sw)) \<Longrightarrow>
   copy_loop B sw batches = Returned sw' \<or> copy_loop B sw batches = Waiting sw' \<Longrightarrow>
   uring_reach B N ssize (fst sw')"
proof (induction batches arbitrary: sw)
  case Nil
  then show ?case
    by (auto split: if_splits)
next
  case (Cons evs batches)
  show ?case
  proof (cases "src_off (fst sw) \<noteq> uint (src_size (fst sw)) \<or> num_block_in_progress (fst sw) \<noteq> 0")
    case True
    with Cons.prems(4) obtain sw1 where
      d: "drain B (io_uring_submit sw) evs = Inr sw1"
      and l: "copy_loop B sw1 batches = Returned sw' \<or> copy_loop B sw1 batches = Waiting sw'"
      by (auto split: sum.splits)
    have "uring_step B N (fst sw) (fst (io_uring_submit sw))"
      by (cases sw) (simp add: io_uring_submit_def step_submit)
    with Cons.prems(1) have "uring_reach B N ssize (fst (io_uring_submit sw))"
      by (rule reach_step)
    moreover have "tagged N (sq (fst (io_uring_submit sw)))"
      "tagged N (in_kernel (snd (io_uring_submit sw)))"
      using Cons.prems(2,3) by (cases sw, simp add: io_uring_submit_def tagged_simps)+
    ultimately have "uring_reach B N ssize (fst sw1) \<and> tagged N (sq (fst sw1))
        \<and> tagged N (in_kernel (snd sw1))"
      using d by (intro drain_reach)
    then show ?thesis
      using Cons.IH [of sw1] l by simp
  next
    case False
    then show ?thesis
      using Cons.prems by auto
  qed
qed

lemma open_dst_file_empty:
  "open_dst_file 0 = Inl Not_enough_space"
  by (simp add: open_dst_file_def fallocate_file_def)

lemma open_dst_file_nonempty:
  "ssize \<noteq> 0 \<Longrightarrow> open_dst_file ssize = Inr (replicate (unat ssize) 0)"
  by (simp add: open_dst_file_def fallocate_file_def unat_eq_0)

lemma uring_start_Inr:
  assumes "uring_start B N src bufs = Inr sw"
  shows "sw = (initial_reads B N (init_copying_status N (word_of_nat (length src)) 3 4),
      \<lparr>src_file = src, dst_file = replicate (unat (word_of_nat (length src) :: 32 word)) 0,
       fixed_buffers = bufs, in_kernel = []\<rparr>)"
proof (cases "(word_of_nat (length src) :: 32 word) = 0")
  case True
  then show ?thesis
    using assms by (simp add: uring_start_def Let_def open_dst_file_empty)
next
  case False
  then show ?thesis
    using assms by (auto simp: uring_start_def Let_def open_dst_file_nonempty)
qed

lemma uring_start_nonempty:
  assumes "(word_of_nat (length src) :: 32 word) \<noteq> 0"
  shows "uring_start B N src bufs
    = Inr (initial_reads B N (init_copying_status N (word_of_nat (length src)) 3 4),
      \<lparr>src_file = src, dst_file = replicate (unat (word_of_nat (length src) :: 32 word)) 0,
       fixed_buffers = bufs, in_kernel = []\<rparr>)"
  using assms by (simp add: uring_start_def Let_def open_dst_file_nonempty)

lemma uring_start_reach:
  assumes "uring_start B N src bufs = Inr sw"
  shows "uring_reach B N (word_of_nat (length src)) (fst sw)"
    and "tagged N (sq (fst sw))"
    and "tagged N (in_kernel (snd sw))"
  unfolding uring_start_Inr [OF assms]
  by (simp_all add: initial_reads_reach initial_reads_tagged tagged_simps)

lemma uring_run_start:
  assumes "uring_run B N src bufs batches = Returned sw
    \<or> uring_run B N src bufs batches = Waiting sw"
  obtains sw0 where "uring_start B N src bufs = Inr sw0"
    and "copy_loop B sw0 batches = Returned sw \<or> copy_loop B sw0 batches = Waiting sw"
  using assms by (auto simp: uring_run_def split: sum.splits)

lemma uring_run_reach:
  assumes "uring_run B N src bufs batches = Returned sw
    \<or> uring_run B N src bufs batches = Waiting sw"
  shows "uring_reach B N (word_of_nat (length src)) (fst sw)"
proof -
  from assms obtain sw0 where s: "uring_start B N src bufs = Inr sw0"
    and l: "copy_loop B sw0 batches = Returned sw \<or> copy_loop B sw0 batches = Waiting sw"
    by (rule uring_run_start)
  show ?thesis
    by (rule copy_loop_reach [OF uring_start_reach [OF s] l])
qed

lemma copy_loop_Returned:
  "copy_loop B sw batches = Returned sw' \<Longrightarrow>
   src_off (fst sw') = uint (src_size (fst sw')) \<and> num_block_in_progress (fst sw') = 0"
proof (induction batches arbitrary: sw)
  case Nil
  then show ?case
    by (auto split: if_splits)
next
  case (Cons evs batches)
  then show ?case
    by (auto split: if_splits sum.splits)
qed

lemma aio_handle_event_done:
  assumes "aio_done s" and "snd ev \<noteq> 0 \<or> uint (l_src_size s) \<le> l_src_off s"
  shows "aio_done (aio_handle_event B (s\<lparr>l_in_flight := fl\<rparr>) ev)"
  using assms uint_nonnegative [of B]
  by (auto simp: aio_done_def aio_handle_event_def Let_def)

lemma aio_events_done:
  "aio_done s \<Longrightarrow> eof_at_end_events B s evs \<Longrightarrow> aio_done (aio_events B s evs)"
proof (induction evs arbitrary: s)
  case Nil
  then show ?case by simp
next
  case (Cons ev evs)
  show ?case
  proof (cases "fst ev \<in> set (l_in_flight s)")
    case True
    let ?t = "aio_handle_event B (s\<lparr>l_in_flight := remove1 (fst ev) (l_in_flight s)\<rparr>) ev"
    have "snd ev \<noteq> 0 \<or> uint (l_src_size s) \<le> l_src_off s" and e: "eof_at_end_events B ?t evs"
      using Cons.prems(2) True by simp_all
    with Cons.prems(1) have "aio_done ?t"
      by (intro aio_handle_event_done)
    then have "aio_done (aio_events B ?t evs)"
      using e by (rule Cons.IH)
    then show ?thesis
      using True by simp
  next
    case False
    then show ?thesis
      using Cons.IH [of s] Cons.prems by simp
  qed
qed

lemma aio_loop_done:
  "aio_done s \<Longrightarrow> eof_at_end B s batches \<Longrightarrow> aio_loop B s batches = Returned s' \<Longrightarrow>
   uint (l_src_size s') \<le> l_src_off s'"
proof (induction batches arbitrary: s)
  case Nil
  then show ?case
    by (auto simp: aio_done_def split: if_splits)
next
  case (Cons evs batches)
  show ?case
  proof (cases "l_num_io_reqs s \<noteq> 0")
    case True
    have "aio_done (io_submit s)"
      using Cons.prems(1) by (simp add: aio_done_def io_submit_def)
    then have "aio_done (aio_events B (io_submit s) evs)"
      using Cons.prems(2) True by (intro aio_events_done) simp_all
    then show ?thesis
      using Cons.IH [of "aio_events B (io_submit s) evs"] Cons.prems(2,3) True
      by simp
  next
    case False
    then show ?thesis
      using Cons.prems by (auto simp: aio_done_def)
  qed
qed

lemma aio_first_loop_count:
  "unat (l_num_io_reqs s) = aio_i \<Longrightarrow> k < 2 ^ 64 \<Longrightarrow>
   aio_i \<le> unat (l_num_io_reqs (aio_first_loop B k s aio_i))"
proof (induction B k s aio_i rule: aio_first_loop.induct)
  case (1 B k s aio_i)
  show ?case
  proof (cases "aio_i < k \<and> l_src_off s < uint (l_src_size s)")
    case True
    have "unat (l_num_io_reqs s) + unat (1 :: 64 word) < 2 ^ LENGTH(64)"
      using True "1.prems" by simp
    then have "unat (l_num_io_reqs s + 1) = unat (l_num_io_reqs s) + unat (1 :: 64 word)"
      by (simp only: unat_add_lem)
    then have n: "unat (l_num_io_reqs (aio_first_pass B s aio_i)) = Suc aio_i"
      using "1.prems"(1) by (simp add: aio_first_pass_def)
    have "Suc aio_i \<le> unat (l_num_io_reqs (aio_first_loop B k (aio_first_pass B s aio_i) (Suc aio_i)))"
      using True n "1.prems"(2) by (rule "1.IH")
    moreover have "aio_first_loop B k s aio_i
        = aio_first_loop B k (aio_first_pass B s aio_i) (Suc aio_i)"
      using True by (subst aio_first_loop.simps) simp
    ultimately show ?thesis
      by simp
  next
    case False
    have "aio_first_loop B k s aio_i = s"
      by (subst aio_first_loop.simps) (simp only: False if_False)
    then show ?thesis
      using "1.prems" by simp
  qed
qed

lemma aio_start_done:
  assumes "0 < N" and "N < 2 ^ 64"
  shows "aio_done (aio_start B N file_size)"
proof (cases "0 < uint (round_file_size B file_size)")
  case True
  let ?s = "aio_init B N file_size"
  have "unat (l_num_io_reqs (aio_first_pass B ?s 0)) = Suc 0"
    by (simp add: aio_first_pass_def aio_init_def)
  then have "Suc 0 \<le> unat (l_num_io_reqs (aio_first_loop B N (aio_first_pass B ?s 0) (Suc 0)))"
    using assms(2) by (rule aio_first_loop_count)
  moreover have "aio_first_loop B N ?s 0 = aio_first_loop B N (aio_first_pass B ?s 0) (Suc 0)"
    using True assms(1) by (subst aio_first_loop.simps) (simp add: aio_init_def)
  ultimately have "l_num_io_reqs (aio_first_loop B N ?s 0) \<noteq> 0"
    by auto
  then show ?thesis
    by (simp add: aio_done_def aio_start_def Let_def)
next
  case False
  let ?s = "aio_init B N file_size"
  have "aio_first_loop B N ?s 0 = ?s"
    using False by (subst aio_first_loop.simps) (simp add: aio_init_def)
  then show ?thesis
    using False uint_nonnegative [of "round_file_size B file_size"]
    by (simp add: aio_done_def aio_start_def Let_def aio_init_def)
qed

lemma aio_main_Returned:
  "aio_main B N file_size batches = Returned s \<Longrightarrow>
   aio_loop B (aio_start B N file_size) batches = Returned s"
  by (simp add: aio_main_def split: sum.splits)

lemma aio_main_cursor_end:
  assumes "0 < N" and "N < 2 ^ 64" and "B \<noteq> 0" and "uint B dvd 2 ^ 32"
    and "eof_at_end B (aio_start B N file_size) batches"
    and "aio_main B N file_size batches = Returned s"
  shows "l_src_off s = uint (round_file_size B file_size)"
proof -
  note l = aio_main_Returned [OF assms(6)]
  have "uint (l_src_size s) \<le> l_src_off s"
    using aio_start_done [OF assms(1,2)] assms(5) l
    by (rule aio_loop_done)
  moreover have "aio_reach B N file_size s"
    using aio_start_reach [OF assms(2)] l
    by (rule aio_loop_reach [OF _ disjI1])
  then have "aio_cursor_inv B s \<and> l_src_size s = round_file_size B file_size"
    using assms(4,3) by (rule aio_reach_cursor)
  ultimately show ?thesis
    by (auto simp: aio_cursor_inv_def)
qed

section \<open>The rounded size and the bounds of a run\<close>

lemma aio_first_loop_src_size:
  "l_src_size (aio_first_loop B k s aio_i) = l_src_size s"
proof (induction B k s aio_i rule: aio_first_loop.induct)
  case (1 B k s aio_i)
  show ?case
  proof (cases "aio_i < k \<and> l_src_off s < uint (l_src_size s)")
    case True
    then have "aio_first_loop B k s aio_i
        = aio_first_loop B k (aio_first_pass B s aio_i) (Suc aio_i)"
      by (subst aio_first_loop.simps) simp
    then show ?thesis
      using "1.IH" [OF True] by (simp add: aio_first_pass_def)
  next
    case False
    have "aio_first_loop B k s aio_i = s"
      by (subst aio_first_loop.simps) (simp only: False if_False)
    then show ?thesis by simp
  qed
qed

lemma aio_start_src_size:
  "l_src_size (aio_start B N file_size) = round_file_size B file_size"
  by (simp add: aio_start_def Let_def aio_first_loop_src_size aio_init_def)

lemma aio_close_size_rounded:
  assumes "aio_reach B N file_size s" and "uint B dvd 2 ^ 32" and "B \<noteq> 0"
  shows "aio_close_size s = unat (round_file_size B file_size)"
  using aio_reach_cursor [OF assms] by (simp add: aio_close_size_def)

text \<open>
  C4 (as amended). The AIO backends set the tracked size to
  \<open>S + B - S mod B\<close>, computed in 32 bits. Where that does not wrap, it is a multiple of
  \<open>B\<close> strictly above \<open>S\<close> and at most \<open>S + B\<close>; it is \<open>S + B\<close> when \<open>S\<close> is already a
  multiple of \<open>B\<close>, so that one more read is issued at the end of the file. The first
  loop keeps the rounded size, and a read that completes with length zero retires its
  control block: \<open>num_io_reqs\<close> drops by one and nothing is prepared.
\<close>

theorem C4_round_file_size:
  assumes "B \<noteq> 0" and "uint file_size + uint B < 2 ^ 32"
  shows "uint (round_file_size B file_size)
        = uint file_size + uint B - uint file_size mod uint B
    \<and> uint B dvd uint (round_file_size B file_size)
    \<and> uint file_size < uint (round_file_size B file_size)
    \<and> uint (round_file_size B file_size) \<le> uint file_size + uint B
    \<and> (uint B dvd uint file_size \<longrightarrow>
         uint (round_file_size B file_size) = uint file_size + uint B)
    \<and> l_src_size (aio_start B N file_size) = round_file_size B file_size
    \<and> (aio_lio_opcode (l_iocbs s ! i) = IO_CMD_PREAD \<longrightarrow>
         aio_handle_event B s (i, 0) = s\<lparr>l_num_io_reqs := l_num_io_reqs s - 1\<rparr>)"
proof -
  let ?r = "uint file_size + uint B - uint file_size mod uint B"
  have pos: "0 < uint B"
    using assms(1) by (rule uint_pos)
  have m: "0 \<le> uint file_size mod uint B" "uint file_size mod uint B < uint B"
    using pos by simp_all
  have "0 \<le> ?r" and "?r < 2 ^ 32"
    using m assms(2) uint_ge_0 [of file_size] by linarith+
  then have "?r mod 2 ^ 32 = ?r"
    by simp
  then have eq: "uint (round_file_size B file_size) = ?r"
    by (simp only: uint_round_file_size)
  have "uint B dvd uint file_size - uint file_size mod uint B"
    by (simp add: minus_mod_eq_mult_div)
  then have d: "uint B dvd ?r"
    by (metis add_diff_eq diff_add_eq dvd_add_triv_right_iff)
  have z: "uint file_size mod uint B = 0" if "uint B dvd uint file_size"
    using that by simp
  show ?thesis
    using eq d m z by (simp add: aio_start_src_size aio_handle_event_def)
qed

theorem C4_round_file_size_witness:
  "READ_BLOCK_SIZE \<noteq> 0 \<and> uint (20000 :: 32 word) + uint READ_BLOCK_SIZE < 2 ^ 32
   \<and> uint (round_file_size READ_BLOCK_SIZE 20000) = 24576
   \<and> uint READ_BLOCK_SIZE dvd uint (round_file_size READ_BLOCK_SIZE 20000)
   \<and> l_src_size (aio_start READ_BLOCK_SIZE QUEUE_SIZE 20000) = 24576"
proof -
  have h1: "READ_BLOCK_SIZE \<noteq> 0"
    by (simp add: READ_BLOCK_SIZE_def)
  have h2: "uint (20000 :: 32 word) + uint READ_BLOCK_SIZE < 2 ^ 32"
    by (simp add: READ_BLOCK_SIZE_def)
  have v: "uint (20000 :: 32 word) + uint READ_BLOCK_SIZE
      - uint (20000 :: 32 word) mod uint READ_BLOCK_SIZE = 24576"
    by (simp add: READ_BLOCK_SIZE_def)
  have w: "round_file_size READ_BLOCK_SIZE 20000 = 24576"
    by (simp add: READ_BLOCK_SIZE_def round_file_size_def)
  show ?thesis
    using C4_round_file_size [OF h1 h2, of QUEUE_SIZE] h1 h2 v w by simp
qed

theorem C4_multiple_counterexample:
  "round_file_size READ_BLOCK_SIZE 8192 = 16384
   \<and> l_src_size (aio_start READ_BLOCK_SIZE QUEUE_SIZE 8192) = 16384
   \<and> round_file_size 512 512 = 1024"
  by (simp add: aio_start_src_size) (simp add: round_file_size_def READ_BLOCK_SIZE_def)

text \<open>
  C5. In every reachable state the in-flight counter of the program is within the pool
  size, and so it is after every step from such a state. In the ring backend
  \<open>num_block_in_progress\<close> (a \<open>uint16_t\<close>, hence \<open>N < 65536\<close>) equals the number of
  slots that are not idle; in the native AIO backend \<open>num_io_reqs\<close> bounds the number of
  control blocks in the kernel.
\<close>

theorem C5_in_flight_bound:
  "(uring_reach B N ssize status \<longrightarrow> N < 65536 \<longrightarrow>
       unat (num_block_in_progress status) = in_flight_count status
     \<and> in_flight_count status \<le> N
     \<and> (\<forall>status'. uring_step B N status status' \<longrightarrow>
           unat (num_block_in_progress status') = in_flight_count status'
         \<and> in_flight_count status' \<le> N))
 \<and> (aio_reach B N file_size s \<longrightarrow> N < 2 ^ 64 \<longrightarrow>
       length (l_in_flight s) \<le> unat (l_num_io_reqs s)
     \<and> unat (l_num_io_reqs s) \<le> N
     \<and> (\<forall>s'. aio_step B N s s' \<longrightarrow>
           length (l_in_flight s') \<le> unat (l_num_io_reqs s') \<and> unat (l_num_io_reqs s') \<le> N))"
proof -
  have u: "unat (num_block_in_progress t) = in_flight_count t \<and> in_flight_count t \<le> N"
    if "uring_inv N t" for t
    using that in_flight_count_le [of t] by (simp add: uring_inv_def)
  have a: "length (l_in_flight t) \<le> unat (l_num_io_reqs t) \<and> unat (l_num_io_reqs t) \<le> N"
    if "aio_count_inv N t" for t
    using that by (simp add: aio_count_inv_def)
  have "unat (num_block_in_progress status) = in_flight_count status
     \<and> in_flight_count status \<le> N
     \<and> (\<forall>status'. uring_step B N status status' \<longrightarrow>
           unat (num_block_in_progress status') = in_flight_count status'
         \<and> in_flight_count status' \<le> N)"
    if r: "uring_reach B N ssize status" and n: "N < 65536"
    using u uring_reach_inv [OF r n] uring_inv_step [OF uring_reach_inv [OF r n] n] by blast
  moreover have "length (l_in_flight s) \<le> unat (l_num_io_reqs s)
     \<and> unat (l_num_io_reqs s) \<le> N
     \<and> (\<forall>s'. aio_step B N s s' \<longrightarrow>
           length (l_in_flight s') \<le> unat (l_num_io_reqs s') \<and> unat (l_num_io_reqs s') \<le> N)"
    if r: "aio_reach B N file_size s" and n: "N < 2 ^ 64"
    using a aio_reach_count [OF r n] aio_count_step [OF aio_reach_count [OF r n] n] by blast
  ultimately show ?thesis
    by blast
qed

theorem C5_in_flight_bound_witness:
  "uring_reach READ_BLOCK_SIZE QUEUE_SIZE 20000 scenario_20000 \<and> QUEUE_SIZE < 65536
   \<and> unat (num_block_in_progress scenario_20000) = in_flight_count scenario_20000
   \<and> in_flight_count scenario_20000 = 3 \<and> in_flight_count scenario_20000 \<le> QUEUE_SIZE
   \<and> aio_reach READ_BLOCK_SIZE QUEUE_SIZE 20000 (aio_start READ_BLOCK_SIZE QUEUE_SIZE 20000)
   \<and> QUEUE_SIZE < 2 ^ 64
   \<and> unat (l_num_io_reqs (aio_start READ_BLOCK_SIZE QUEUE_SIZE 20000)) \<le> QUEUE_SIZE"
proof -
  have r: "uring_reach READ_BLOCK_SIZE QUEUE_SIZE 20000 scenario_20000"
    unfolding scenario_20000_def by (rule initial_reads_reach) simp
  have n: "QUEUE_SIZE < 65536" "QUEUE_SIZE < 2 ^ 64"
    by (simp_all add: QUEUE_SIZE_def)
  have a: "aio_reach READ_BLOCK_SIZE QUEUE_SIZE 20000 (aio_start READ_BLOCK_SIZE QUEUE_SIZE 20000)"
    using n(2) by (rule aio_start_reach)
  have c: "in_flight_count scenario_20000 = 3"
    by code_simp
  note t = C5_in_flight_bound [of READ_BLOCK_SIZE QUEUE_SIZE 20000 scenario_20000 20000
      "aio_start READ_BLOCK_SIZE QUEUE_SIZE 20000"]
  show ?thesis
    using t r n a c by simp
qed

lemma uint_word_of_nat32:
  assumes "n < 2 ^ 32"
  shows "uint (word_of_nat n :: 32 word) = int n"
proof -
  have "unat (word_of_nat n :: 32 word) = n mod 2 ^ 32"
    by (simp add: unat_of_nat)
  then have "unat (word_of_nat n :: 32 word) = n"
    using assms by simp
  then show ?thesis
    by (simp add: uint_nat)
qed

text \<open>
  C6 (as amended). In every reachable state the read cursor lies between 0 and the tracked
  size, and no step decreases it. When the copy loop of the ring backend returns, the
  cursor equals the size \<open>S < 2 ^ 32\<close> of the source. In the native AIO backend the tracked
  size is the rounded size; when its loop returns and no completion had the result 0
  while the cursor was below the rounded size, the cursor equals the rounded size, which
  is above \<open>S\<close>.
\<close>

theorem C6_read_cursor:
  "(uring_reach B N ssize status \<longrightarrow>
       0 \<le> src_off status \<and> src_off status \<le> uint ssize
     \<and> (\<forall>status'. uring_step B N status status' \<longrightarrow> src_off status \<le> src_off status'))
 \<and> (length src < 2 ^ 32 \<longrightarrow>
     uring_run B N src bufs batches = Returned sw \<longrightarrow>
       src_off (fst sw) = int (length src))
 \<and> (aio_reach B N file_size s \<longrightarrow> B \<noteq> 0 \<longrightarrow> uint B dvd 2 ^ 32 \<longrightarrow>
       0 \<le> l_src_off s \<and> l_src_off s \<le> uint (round_file_size B file_size)
     \<and> (\<forall>s'. aio_step B N s s' \<longrightarrow> l_src_off s \<le> l_src_off s'))
 \<and> (0 < N \<longrightarrow> N < 2 ^ 64 \<longrightarrow> B \<noteq> 0 \<longrightarrow> uint B dvd 2 ^ 32 \<longrightarrow>
     eof_at_end B (aio_start B N file_size) evs \<longrightarrow>
     aio_main B N file_size evs = Returned s' \<longrightarrow>
       l_src_off s' = uint (round_file_size B file_size))"
proof -
  have 1: "0 \<le> src_off status \<and> src_off status \<le> uint ssize
     \<and> (\<forall>status'. uring_step B N status status' \<longrightarrow> src_off status \<le> src_off status')"
    if r: "uring_reach B N ssize status"
  proof -
    from uring_reach_cursor [OF r]
    have c: "0 \<le> src_off status" "src_off status \<le> uint (src_size status)"
      "src_size status = ssize"
      by simp_all
    have "src_off status \<le> src_off status'" if "uring_step B N status status'" for status'
      using uring_step_cursor [OF c(1,2) that] by simp
    then show ?thesis
      using c by simp
  qed
  have 2: "src_off (fst sw) = int (length src)"
    if l: "length src < 2 ^ 32"
      and e: "uring_run B N src bufs batches = Returned sw"
  proof -
    have "uring_reach B N (word_of_nat (length src)) (fst sw)"
      by (rule uring_run_reach [OF disjI1 [OF e]])
    then have "src_size (fst sw) = word_of_nat (length src)"
      using uring_reach_cursor by blast
    moreover have "src_off (fst sw) = uint (src_size (fst sw))"
      using e copy_loop_Returned [of B _ batches sw]
      by (auto simp: uring_run_def split: sum.splits)
    ultimately show ?thesis
      using uint_word_of_nat32 [OF l] by simp
  qed
  have 3: "0 \<le> l_src_off s \<and> l_src_off s \<le> uint (round_file_size B file_size)
     \<and> (\<forall>s'. aio_step B N s s' \<longrightarrow> l_src_off s \<le> l_src_off s')"
    if r: "aio_reach B N file_size s" and b: "B \<noteq> 0" and d: "uint B dvd 2 ^ 32"
  proof -
    from aio_reach_cursor [OF r d b]
    have c: "aio_cursor_inv B s" "l_src_size s = round_file_size B file_size"
      by simp_all
    have "l_src_off s \<le> l_src_off s'" if "aio_step B N s s'" for s'
      using aio_cursor_step [OF c(1) b that] by simp
    then show ?thesis
      using c by (simp add: aio_cursor_inv_def)
  qed
  have 4: "l_src_off s' = uint (round_file_size B file_size)"
    if "0 < N" "N < 2 ^ 64" "B \<noteq> 0" "uint B dvd 2 ^ 32"
      "eof_at_end B (aio_start B N file_size) evs" "aio_main B N file_size evs = Returned s'"
    using that by (rule aio_main_cursor_end)
  show ?thesis
    using 1 2 3 4 by blast
qed

theorem C6_read_cursor_witness:
  "uring_reach READ_BLOCK_SIZE QUEUE_SIZE 20000 two_reads_20000
   \<and> 0 \<le> src_off two_reads_20000 \<and> src_off two_reads_20000 \<le> uint (20000 :: 32 word)
   \<and> uring_step READ_BLOCK_SIZE QUEUE_SIZE two_reads_20000
        (prepare_read_request READ_BLOCK_SIZE two_reads_20000 2)
   \<and> src_off two_reads_20000 \<le> src_off (prepare_read_request READ_BLOCK_SIZE two_reads_20000 2)
   \<and> length small_src < 2 ^ 32
   \<and> uring_run 4 2 small_src small_bufs small_batches = Returned (result small_run)
   \<and> src_off (fst (result small_run)) = int (length small_src)
   \<and> aio_reach READ_BLOCK_SIZE QUEUE_SIZE 100 (aio_start READ_BLOCK_SIZE QUEUE_SIZE 100)
   \<and> READ_BLOCK_SIZE \<noteq> 0 \<and> uint READ_BLOCK_SIZE dvd 2 ^ 32
   \<and> l_src_off (aio_start READ_BLOCK_SIZE QUEUE_SIZE 100)
        \<le> uint (round_file_size READ_BLOCK_SIZE 100)
   \<and> 0 < QUEUE_SIZE \<and> QUEUE_SIZE < 2 ^ 64
   \<and> eof_at_end READ_BLOCK_SIZE (aio_start READ_BLOCK_SIZE QUEUE_SIZE 8192) block_8192_events
   \<and> aio_main READ_BLOCK_SIZE QUEUE_SIZE 8192 block_8192_events
        = Returned (result (aio_main READ_BLOCK_SIZE QUEUE_SIZE 8192 block_8192_events))
   \<and> l_src_off (result (aio_main READ_BLOCK_SIZE QUEUE_SIZE 8192 block_8192_events))
        = uint (round_file_size READ_BLOCK_SIZE 8192)
   \<and> uint (round_file_size READ_BLOCK_SIZE 8192) = 16384"
proof -
  let ?m = "aio_main READ_BLOCK_SIZE QUEUE_SIZE 8192 block_8192_events"
  have r: "uring_reach READ_BLOCK_SIZE QUEUE_SIZE 20000 two_reads_20000"
    unfolding two_reads_20000_def QUEUE_SIZE_def
    using initial_reads_reach [of 2 64 READ_BLOCK_SIZE 20000 3 4] by simp
  have st: "uring_step READ_BLOCK_SIZE QUEUE_SIZE two_reads_20000
        (prepare_read_request READ_BLOCK_SIZE two_reads_20000 2)"
  proof (rule step_read)
    show "2 < QUEUE_SIZE"
      by (simp add: QUEUE_SIZE_def)
    show "stage (block_statuses two_reads_20000 ! 2) = BLOCK_IDLE"
      by code_simp
  qed
  have l: "length small_src < 2 ^ 32"
    by (simp add: small_src_def)
  have e: "uring_run 4 2 small_src small_bufs small_batches = Returned (result small_run)"
    by code_simp
  have n: "0 < QUEUE_SIZE" "QUEUE_SIZE < 2 ^ 64"
    by (simp_all add: QUEUE_SIZE_def)
  have a: "aio_reach READ_BLOCK_SIZE QUEUE_SIZE 100 (aio_start READ_BLOCK_SIZE QUEUE_SIZE 100)"
    using n(2) by (rule aio_start_reach)
  have b: "READ_BLOCK_SIZE \<noteq> 0" "uint READ_BLOCK_SIZE dvd 2 ^ 32"
    by (simp_all add: READ_BLOCK_SIZE_def)
  have z: "eof_at_end READ_BLOCK_SIZE (aio_start READ_BLOCK_SIZE QUEUE_SIZE 8192)
      block_8192_events"
    by code_simp
  have m: "?m = Returned (result ?m)"
    by code_simp
  have v: "uint (round_file_size READ_BLOCK_SIZE 8192) = 16384"
    by (simp add: round_file_size_def READ_BLOCK_SIZE_def)
  have c1: "0 \<le> src_off two_reads_20000 \<and> src_off two_reads_20000 \<le> uint (20000 :: 32 word)
     \<and> src_off two_reads_20000 \<le> src_off (prepare_read_request READ_BLOCK_SIZE two_reads_20000 2)"
    using C6_read_cursor [where B = READ_BLOCK_SIZE and N = QUEUE_SIZE and ssize = 20000
        and status = two_reads_20000] r st
    by blast
  have c2: "src_off (fst (result small_run)) = int (length small_src)"
    using C6_read_cursor [where src = small_src and B = 4 and N = 2 and bufs = small_bufs
        and batches = small_batches and sw = "result small_run"] l e
    by blast
  have c3: "l_src_off (aio_start READ_BLOCK_SIZE QUEUE_SIZE 100)
        \<le> uint (round_file_size READ_BLOCK_SIZE 100)"
    using C6_read_cursor [where B = READ_BLOCK_SIZE and N = QUEUE_SIZE and file_size = 100
        and s = "aio_start READ_BLOCK_SIZE QUEUE_SIZE 100"] a b
    by blast
  have c4: "l_src_off (result ?m) = uint (round_file_size READ_BLOCK_SIZE 8192)"
    using C6_read_cursor [where B = READ_BLOCK_SIZE and N = QUEUE_SIZE and file_size = 8192
        and evs = block_8192_events and s' = "result ?m"] n b z m
    by blast
  show ?thesis
    using r st l e n a b z m v c1 c2 c3 c4 by simp
qed

theorem C6_rounded_end_counterexample:
  "map_run l_src_off (aio_main READ_BLOCK_SIZE QUEUE_SIZE 100 [[(0, 100)], [(0, 100)]])
     = Returned 8192"
  by code_simp

text \<open>
  The first loop of \<open>main\<close> of \<open>io-uring-cp.c\<close> prepares nothing when the cursor is at the
  size of the source.
\<close>

lemma initial_reads_done:
  "src_off status = uint (src_size status) \<Longrightarrow> initial_reads B k status = status"
  by (induction k) (simp_all add: initial_reads_def prepare_read_request_done)

text \<open>
  C8. With an empty source \<open>open_dst_file\<close> calls \<open>fallocate\<close> with the length 0, which
  fails: \<open>main\<close> of \<open>io-uring-cp.c\<close> exits with a failure before a slot is initialised or a
  request prepared, whatever the kernel would deliver, and \<open>main\<close> of \<open>linux-aio-cp.c\<close>
  exits before its rounding and its first loop. No read is issued, but no run on an empty
  source terminates successfully, where the claim has the pipeline complete.
\<close>

theorem C8_empty_source_exits:
  "open_dst_file 0 = Inl Not_enough_space
 \<and> uring_start B N [] bufs = Inl Not_enough_space
 \<and> uring_run B N [] bufs batches = Exited Not_enough_space
 \<and> uring_main B N [] bufs batches = Exited Not_enough_space
 \<and> aio_main B N 0 evs = Exited Not_enough_space"
  by (simp add: uring_main_def uring_run_def uring_start_def aio_main_def open_dst_file_empty)

section \<open>The copy is correct\<close>

lemma pwrite_file_length:
  "length f \<le> length (pwrite_file f off data)"
  by (auto simp: pwrite_file_def min_def)

lemma pwrite_file_nth:
  assumes "data \<noteq> []" and "i < length f"
  shows "pwrite_file f off data ! i
     = (if off \<le> i \<and> i < off + length data then data ! (i - off) else f ! i)"
proof (cases "i < off")
  case True
  then show ?thesis
    using assms by (simp add: pwrite_file_def nth_append)
next
  case False
  then have "off \<le> length f"
    using assms(2) by simp
  then show ?thesis
    using assms False by (auto simp: pwrite_file_def nth_append min_def)
qed

lemma copy_inv_init:
  assumes "length src < 2 ^ 32" and "length bufs = N"
    and "list_all (\<lambda>b. length b = unat B) bufs"
  shows "copy_inv B N src (init_copying_status N (word_of_nat (length src)) sfd dfd)
     \<lparr>src_file = src, dst_file = replicate (unat (word_of_nat (length src) :: 32 word)) 0,
      fixed_buffers = bufs, in_kernel = []\<rparr>"
proof -
  have "unat (word_of_nat (length src) :: 32 word) = length src"
    using assms(1) by (simp add: unat_of_nat)
  moreover have "uint (word_of_nat (length src) :: 32 word) = int (length src)"
    using assms(1) by (rule uint_word_of_nat32)
  moreover have "\<forall>cell < N. length (bufs ! cell) = unat B"
    using assms(2,3) by (simp add: list_all_length)
  moreover have "slot_ok B src (init_copying_status N (word_of_nat (length src)) sfd dfd)
     \<lparr>src_file = src, dst_file = d, fixed_buffers = bufs, in_kernel = []\<rparr> cell"
    if "cell < N" for cell d
    using that by (simp add: slot_ok_def pending_def init_copying_status_def)
  ultimately show ?thesis
    using assms(2) uring_inv_init [of N "word_of_nat (length src)" sfd dfd]
    by (simp add: copy_inv_def tagged_simps init_copying_status_def)
qed

lemma copy_inv_submit:
  assumes "copy_inv B N src status w"
  shows "copy_inv B N src (status\<lparr>sq := []\<rparr>) (w\<lparr>in_kernel := in_kernel w @ sq status\<rparr>)"
proof -
  have "slot_ok B src (status\<lparr>sq := []\<rparr>) (w\<lparr>in_kernel := in_kernel w @ sq status\<rparr>) cell
      = slot_ok B src status w cell" for cell
    by (simp add: slot_ok_def pending_def request_def)
  moreover have "covered (status\<lparr>sq := []\<rparr>) i = covered status i" for i
    by (simp add: covered_def)
  moreover have "uring_inv N (status\<lparr>sq := []\<rparr>)"
    using assms by (auto simp: copy_inv_def uring_inv_def in_flight_count_def)
  ultimately show ?thesis
    using assms by (simp add: copy_inv_def tagged_simps)
qed

lemma copy_inv_prepare_read:
  assumes inv: "copy_inv B N src status w" and n: "N < 65536" and c: "cell < N"
    and idle: "stage (block_statuses status ! cell) = BLOCK_IDLE"
  shows "copy_inv B N src (prepare_read_request B status cell) w"
proof (cases "src_off status = uint (src_size status)")
  case True
  then show ?thesis
    using inv by (simp add: prepare_read_request_done)
next
  case False
  let ?s = "prepare_read_request B status cell"
  let ?sz = "read_size B status"
  let ?nb = "(block_statuses status ! cell)
      \<lparr>stage := BLOCK_IN_READ, offset := src_off status, size_blk := ?sz\<rparr>"
  let ?rq = "\<lparr>sqe_opcode = IORING_OP_READ_FIXED, sqe_fd = src_fd status, sqe_buf_index = cell,
      sqe_len = B, sqe_off = src_off status, sqe_user_data = cell\<rparr>"
  have ui: "uring_inv N status"
    and S: "uint (src_size status) = int (length src)"
    and slots: "\<And>k. k < N \<Longrightarrow> slot_ok B src status w k"
    and dst: "\<And>i. i < nat (src_off status) \<Longrightarrow> covered status i \<or> dst_file w ! i = src ! i"
    using inv by (simp_all add: copy_inv_def)
  have len: "length (block_statuses status) = N"
    and lo: "0 \<le> src_off status" and hi: "src_off status \<le> uint (src_size status)"
    using ui by (simp_all add: uring_inv_def)
  have lt: "src_off status < uint (src_size status)"
    using False hi by simp
  note eq = prepare_read_request_more [OF lo lt, of B cell]
  have sz: "uint ?sz = min (uint B) (uint (src_size status) - src_off status)"
    using lo hi by (rule uint_read_size)
  have bs: "block_statuses ?s = (block_statuses status)[cell := ?nb]"
    and sq: "sq ?s = sq status @ [?rq]"
    and off: "src_off ?s = src_off status + uint ?sz"
    and fr: "src_fd ?s = src_fd status" "dst_fd ?s = dst_fd status" "src_size ?s = src_size status"
    by (simp_all add: eq)
  have 1: "uring_inv N ?s"
    using ui n c idle by (rule uring_inv_prepare_read)
  have 2: "tagged N (sq ?s)"
    using inv c by (simp add: copy_inv_def prepare_read_request_tagged)
  have 3: "slot_ok B src ?s w k" if k: "k < N" for k
  proof (cases "k = cell")
    case True
    have "pending status w cell = []"
      using slots [OF c] idle by (simp add: slot_ok_def)
    then have p: "pending ?s w cell = [?rq]"
      by (simp add: pending_def sq)
    have r: "request B ?s cell = ?rq"
      using c len by (simp add: request_def bs fr Let_def)
    show ?thesis
      unfolding True using c len p r sz lo lt S
      by (simp add: slot_ok_def bs off) linarith
  next
    case False
    have b: "block_statuses ?s ! k = block_statuses status ! k"
      using False by (simp add: bs)
    have p: "pending ?s w k = pending status w k"
      using False by (auto simp: pending_def sq)
    have r: "request B ?s k = request B status k"
      by (simp add: request_def b fr Let_def cong: if_cong)
    obtain d where d: "src_off ?s = src_off status + d" "0 \<le> d"
      using off by simp
    show ?thesis
      using slots [OF k] d(2) by (auto simp: slot_ok_def b p r d(1) Let_def)
  qed
  have cov: "covered ?s i" if "covered status i" for i
  proof -
    from that obtain k where k: "k < length (block_statuses status)"
      "stage (block_statuses status ! k) \<noteq> BLOCK_IDLE"
      "offset (block_statuses status ! k) \<le> int i"
      "int i < offset (block_statuses status ! k) + uint (size_blk (block_statuses status ! k))"
      by (auto simp: covered_def)
    then have "k \<noteq> cell"
      using idle by auto
    then have "block_statuses ?s ! k = block_statuses status ! k"
      by (simp add: bs)
    then show ?thesis
      using k unfolding covered_def by (intro exI [of _ k]) (simp add: bs)
  qed
  have 4: "covered ?s i \<or> dst_file w ! i = src ! i" if i: "i < nat (src_off ?s)" for i
  proof (cases "i < nat (src_off status)")
    case True
    then show ?thesis
      using dst [OF True] cov by auto
  next
    case False
    then have "src_off status \<le> int i" "int i < src_off status + uint ?sz"
      using i lo by (simp_all add: off)
    then have "covered ?s i"
      unfolding covered_def using c len by (intro exI [of _ cell]) (simp add: bs)
    then show ?thesis ..
  qed
  show ?thesis
    using inv 1 2 3 4 by (simp add: copy_inv_def fr)
qed

lemma copy_inv_initial_reads:
  assumes "copy_inv B N src (init_copying_status N ssize sfd dfd) w" and "N < 65536"
  shows "k \<le> N \<Longrightarrow> copy_inv B N src (initial_reads B k (init_copying_status N ssize sfd dfd)) w"
proof (induction k)
  case 0
  show ?case
    using assms(1) by (simp add: initial_reads_def)
next
  case (Suc k)
  then have "copy_inv B N src (initial_reads B k (init_copying_status N ssize sfd dfd)) w"
    and "k < N"
    by simp_all
  moreover from \<open>k < N\<close>
  have "stage (block_statuses (initial_reads B k (init_copying_status N ssize sfd dfd)) ! k)
      = BLOCK_IDLE"
    by (intro initial_reads_idle) simp_all
  ultimately show ?case
    unfolding initial_reads_Suc using assms(2) by (intro copy_inv_prepare_read)
qed

lemma pending_unique:
  assumes "filter P xs @ filter P ys = [r]" and "q \<in> set xs" and "P q"
  shows "q = r \<and> filter P xs = [r] \<and> filter P ys = []"
proof -
  have "q \<in> set (filter P xs)"
    using assms(2,3) by simp
  then have "filter P xs \<noteq> []"
    by (auto simp: filter_empty_conv)
  then have "filter P xs = [r] \<and> filter P ys = []"
    using assms(1) by (cases "filter P xs") simp_all
  then show ?thesis
    using \<open>q \<in> set (filter P xs)\<close> by simp
qed

lemma filter_remove1_self:
  "filter P xs = [q] \<Longrightarrow> filter P (remove1 q xs) = []"
  by (simp add: filter_remove1)

lemma filter_remove1_other:
  "\<not> P q \<Longrightarrow> filter P (remove1 q xs) = filter P xs"
  by (simp add: filter_remove1 remove1_idem)

lemma tagged_remove1:
  "tagged N xs \<Longrightarrow> tagged N (remove1 q xs)"
  using set_remove1_subset [of q xs] by (auto simp: tagged_def list_all_iff)

lemma covered_cong:
  assumes "length (block_statuses s') = length (block_statuses s)"
    and "\<And>k. k < length (block_statuses s) \<Longrightarrow>
      (stage (block_statuses s' ! k) \<noteq> BLOCK_IDLE) = (stage (block_statuses s ! k) \<noteq> BLOCK_IDLE)
      \<and> offset (block_statuses s' ! k) = offset (block_statuses s ! k)
      \<and> size_blk (block_statuses s' ! k) = size_blk (block_statuses s ! k)"
  shows "covered s' i = covered s i"
  unfolding covered_def using assms by auto

lemma copy_inv_read_completion:
  assumes inv: "copy_inv B N src status w" and c: "cell < N"
    and st: "stage (block_statuses status ! cell) = BLOCK_IN_READ"
    and ik: "filter (\<lambda>q. sqe_user_data q = cell) (in_kernel w) = [request B status cell]"
    and sqe: "filter (\<lambda>q. sqe_user_data q = cell) (sq status) = []"
    and full: "unat B \<le> m"
    and data: "data = take m (pread_file (src_file w)
        (nat (offset (block_statuses status ! cell))) (unat B))"
  shows "copy_inv B N src (prepare_write_request B status cell)
     (w\<lparr>in_kernel := remove1 (request B status cell) (in_kernel w),
        fixed_buffers := (fixed_buffers w)
          [cell := data @ drop (length data) (fixed_buffers w ! cell)]\<rparr>)"
proof -
  let ?b = "block_statuses status ! cell"
  let ?q = "request B status cell"
  let ?s = "prepare_write_request B status cell"
  let ?w = "w\<lparr>in_kernel := remove1 ?q (in_kernel w),
        fixed_buffers := (fixed_buffers w)
          [cell := data @ drop (length data) (fixed_buffers w ! cell)]\<rparr>"
  let ?wq = "\<lparr>sqe_opcode = IORING_OP_WRITE_FIXED, sqe_fd = dst_fd status, sqe_buf_index = cell,
      sqe_len = B, sqe_off = offset ?b, sqe_user_data = cell\<rparr>"
  have ui: "uring_inv N status"
    and S: "uint (src_size status) = int (length src)"
    and srcf: "src_file w = src"
    and bl: "length (fixed_buffers w) = N"
    and bufs: "\<And>k. k < N \<Longrightarrow> length (fixed_buffers w ! k) = unat B"
    and slots: "\<And>k. k < N \<Longrightarrow> slot_ok B src status w k"
    using inv by (simp_all add: copy_inv_def)
  have len: "length (block_statuses status) = N"
    and hi: "src_off status \<le> uint (src_size status)"
    using ui by (simp_all add: uring_inv_def)
  have bs: "block_statuses ?s = (block_statuses status)[cell := ?b\<lparr>stage := BLOCK_IN_WRITE\<rparr>]"
    and sq: "sq ?s = sq status @ [?wq]"
    and fr: "src_off ?s = src_off status" "src_fd ?s = src_fd status" "dst_fd ?s = dst_fd status"
      "src_size ?s = src_size status"
    by (simp_all add: prepare_write_request_def Let_def)
  have udq: "sqe_user_data ?q = cell"
    by (simp add: request_def Let_def)
  have reg: "0 \<le> offset ?b" "offset ?b + uint (size_blk ?b) \<le> src_off status"
    "uint (size_blk ?b) \<le> uint B"
    "uint (size_blk ?b) = uint B \<or> offset ?b + uint (size_blk ?b) = int (length src)"
    using slots [OF c] st by (simp_all add: slot_ok_def Let_def)
  have 1: "uring_inv N ?s"
    using ui c st by (rule uring_inv_prepare_write)
  have 2: "tagged N (sq ?s)" "tagged N (in_kernel ?w)"
    using inv c by (simp_all add: copy_inv_def sq tagged_simps tagged_remove1)
  have dl: "length data \<le> unat B"
    by (simp add: data pread_file_def)
  have 3: "length (fixed_buffers ?w ! k) = unat B" if "k < N" for k
    using that bufs [OF that] bufs [OF c] bl dl by (cases "k = cell") simp_all
  have "int (unat (size_blk ?b)) = uint (size_blk ?b)" "int (unat B) = uint B"
    by (simp_all only: uint_nat)
  then have szB: "unat (size_blk ?b) \<le> unat B"
    and szS: "nat (offset ?b) + unat (size_blk ?b) \<le> length src"
    using reg hi S by linarith+
  have sz: "unat (size_blk ?b) \<le> length data"
    using szB szS full by (simp add: data pread_file_def srcf)
  have buf: "take (unat (size_blk ?b)) (data @ drop (length data) (fixed_buffers w ! cell))
      = take (unat (size_blk ?b)) (drop (nat (offset ?b)) src)"
  proof -
    have "min (unat (size_blk ?b)) (min m (unat B)) = unat (size_blk ?b)"
      using szB full by simp
    then have "take (unat (size_blk ?b)) data
        = take (unat (size_blk ?b)) (drop (nat (offset ?b)) src)"
      by (simp add: data pread_file_def srcf)
    then show ?thesis
      using sz by simp
  qed
  have 4: "slot_ok B src ?s ?w k" if k: "k < N" for k
  proof (cases "k = cell")
    case True
    have p: "pending ?s ?w cell = [?wq]"
      using ik sqe by (simp add: pending_def sq filter_remove1_self)
    have r: "request B ?s cell = ?wq"
      using c len by (simp add: request_def bs fr Let_def)
    show ?thesis
      unfolding True using c len bl p r reg buf
      by (simp add: slot_ok_def bs fr Let_def)
  next
    case False
    have b: "block_statuses ?s ! k = block_statuses status ! k"
      using False by (simp add: bs)
    have "filter (\<lambda>q. sqe_user_data q = k) (remove1 ?q (in_kernel w))
        = filter (\<lambda>q. sqe_user_data q = k) (in_kernel w)"
      using False udq by (intro filter_remove1_other) simp
    then have p: "pending ?s ?w k = pending status w k"
      using False by (simp add: pending_def sq)
    have r: "request B ?s k = request B status k"
      by (simp add: request_def b fr Let_def cong: if_cong)
    have f: "(fixed_buffers w)[cell := data @ drop (length data) (fixed_buffers w ! cell)] ! k
        = fixed_buffers w ! k"
      using False by simp
    show ?thesis
      using slots [OF k] by (simp add: slot_ok_def b p r f fr Let_def)
  qed
  have 5: "covered ?s i = covered status i" for i
  proof (rule covered_cong)
    show "length (block_statuses ?s) = length (block_statuses status)"
      by (simp add: bs)
    show "(stage (block_statuses ?s ! k) \<noteq> BLOCK_IDLE)
        = (stage (block_statuses status ! k) \<noteq> BLOCK_IDLE)
      \<and> offset (block_statuses ?s ! k) = offset (block_statuses status ! k)
      \<and> size_blk (block_statuses ?s ! k) = size_blk (block_statuses status ! k)"
      if "k < length (block_statuses status)" for k
      using that st by (cases "k = cell") (simp_all add: bs)
  qed
  show ?thesis
    using inv 1 2 3 4 5 bl by (simp add: copy_inv_def fr)
qed

lemma copy_inv_write_completion:
  assumes inv: "copy_inv B N src status w" and n: "N < 65536" and c: "cell < N"
    and nz: "B \<noteq> 0"
    and st: "stage (block_statuses status ! cell) = BLOCK_IN_WRITE"
    and ik: "filter (\<lambda>q. sqe_user_data q = cell) (in_kernel w) = [request B status cell]"
    and sqe: "filter (\<lambda>q. sqe_user_data q = cell) (sq status) = []"
    and full: "unat B \<le> m"
    and data: "data = take m (take (unat B) (fixed_buffers w ! cell))"
  shows "copy_inv B N src
     (prepare_read_request B (finish_write_request status cell) cell)
     (w\<lparr>in_kernel := remove1 (request B status cell) (in_kernel w),
        dst_file := pwrite_file (dst_file w)
          (nat (offset (block_statuses status ! cell))) data\<rparr>)"
proof -
  let ?b = "block_statuses status ! cell"
  let ?q = "request B status cell"
  let ?s = "finish_write_request status cell"
  let ?o = "nat (offset ?b)"
  let ?w = "w\<lparr>in_kernel := remove1 ?q (in_kernel w),
        dst_file := pwrite_file (dst_file w) ?o data\<rparr>"
  have ui: "uring_inv N status"
    and S: "uint (src_size status) = int (length src)"
    and bl: "length (fixed_buffers w) = N"
    and bufs: "\<And>k. k < N \<Longrightarrow> length (fixed_buffers w ! k) = unat B"
    and slots: "\<And>k. k < N \<Longrightarrow> slot_ok B src status w k"
    and dl: "length src \<le> length (dst_file w)"
    and dst: "\<And>i. i < nat (src_off status) \<Longrightarrow> covered status i \<or> dst_file w ! i = src ! i"
    using inv by (simp_all add: copy_inv_def)
  have len: "length (block_statuses status) = N"
    and lo: "0 \<le> src_off status" and hi: "src_off status \<le> uint (src_size status)"
    using ui by (simp_all add: uring_inv_def)
  have bs: "block_statuses ?s = (block_statuses status)[cell := ?b\<lparr>stage := BLOCK_IDLE\<rparr>]"
    and fr: "sq ?s = sq status" "src_off ?s = src_off status" "src_fd ?s = src_fd status"
      "dst_fd ?s = dst_fd status" "src_size ?s = src_size status"
    by (simp_all add: finish_write_request_def Let_def)
  have udq: "sqe_user_data ?q = cell"
    by (simp add: request_def Let_def)
  have reg: "0 \<le> offset ?b" "offset ?b + uint (size_blk ?b) \<le> src_off status"
    "uint (size_blk ?b) \<le> uint B"
    "uint (size_blk ?b) = uint B \<or> offset ?b + uint (size_blk ?b) = int (length src)"
    and buf: "take (unat (size_blk ?b)) (fixed_buffers w ! cell)
      = take (unat (size_blk ?b)) (drop ?o src)"
    using slots [OF c] st by (simp_all add: slot_ok_def Let_def)
  have d: "data = fixed_buffers w ! cell"
    using full bufs [OF c] by (simp add: data)
  have dlen: "length data = unat B"
    using bufs [OF c] by (simp add: d)
  have "unat B \<noteq> 0"
    using nz by (simp add: unat_eq_zero)
  then have dne: "data \<noteq> []"
    using dlen by auto
  have conv: "int (unat (size_blk ?b)) = uint (size_blk ?b)" "int (unat B) = uint B"
    by (simp_all only: uint_nat)
  have 1: "uring_inv N ?s" and idle: "stage (block_statuses ?s ! cell) = BLOCK_IDLE"
    using uring_inv_finish_write [OF ui c st] by simp_all
  have 2: "tagged N (sq ?s)" "tagged N (in_kernel ?w)"
    using inv by (simp_all add: copy_inv_def fr tagged_remove1)
  have 4: "slot_ok B src ?s ?w k" if k: "k < N" for k
  proof (cases "k = cell")
    case True
    have "pending ?s ?w cell = []"
      using ik sqe by (simp add: pending_def fr filter_remove1_self)
    then show ?thesis
      unfolding True using idle by (simp add: slot_ok_def)
  next
    case False
    have b: "block_statuses ?s ! k = block_statuses status ! k"
      using False by (simp add: bs)
    have "filter (\<lambda>q. sqe_user_data q = k) (remove1 ?q (in_kernel w))
        = filter (\<lambda>q. sqe_user_data q = k) (in_kernel w)"
      using False udq by (intro filter_remove1_other) simp
    then have p: "pending ?s ?w k = pending status w k"
      by (simp add: pending_def fr)
    have r: "request B ?s k = request B status k"
      by (simp add: request_def b fr Let_def cong: if_cong)
    show ?thesis
      using slots [OF k] by (simp add: slot_ok_def b p r fr Let_def)
  qed
  have 5: "length src \<le> length (dst_file ?w)"
    using dl pwrite_file_length [of "dst_file w" ?o data] by simp
  have 6: "covered ?s i \<or> dst_file ?w ! i = src ! i" if i: "i < nat (src_off status)" for i
  proof (cases "?o \<le> i \<and> i < ?o + unat B")
    case True
    have iS: "i < length src" and il: "i < length (dst_file w)"
      using i hi S dl by linarith+
    have "i < ?o + unat (size_blk ?b)"
      using True iS reg conv by linarith
    then have k: "i - ?o < unat (size_blk ?b)"
      using True by linarith
    have "dst_file ?w ! i = data ! (i - ?o)"
      using True dne il by (simp add: pwrite_file_nth dlen)
    also have "\<dots> = take (unat (size_blk ?b)) (fixed_buffers w ! cell) ! (i - ?o)"
      using k by (simp add: d)
    also have "\<dots> = take (unat (size_blk ?b)) (drop ?o src) ! (i - ?o)"
      by (simp only: buf)
    also have "\<dots> = src ! i"
      using k True iS by simp
    finally show ?thesis ..
  next
    case False
    have il: "i < length (dst_file w)"
      using i hi S dl by linarith
    have same: "dst_file ?w ! i = dst_file w ! i"
      using False dne il by (auto simp: pwrite_file_nth dlen)
    from dst [OF i] show ?thesis
    proof
      assume "covered status i"
      then obtain k where k: "k < length (block_statuses status)"
        "stage (block_statuses status ! k) \<noteq> BLOCK_IDLE"
        "offset (block_statuses status ! k) \<le> int i"
        "int i < offset (block_statuses status ! k) + uint (size_blk (block_statuses status ! k))"
        by (auto simp: covered_def)
      have "k \<noteq> cell"
      proof
        assume e: "k = cell"
        have "offset ?b \<le> int i" "int i < offset ?b + uint (size_blk ?b)"
          using k(3,4) by (simp_all add: e)
        then have "?o \<le> i" "i < ?o + unat B"
          using reg conv by linarith+
        then show False
          using False by simp
      qed
      then have "block_statuses ?s ! k = block_statuses status ! k"
        by (simp add: bs)
      then have "covered ?s i"
        using k unfolding covered_def by (intro exI [of _ k]) (simp add: bs)
      then show ?thesis ..
    next
      assume "dst_file w ! i = src ! i"
      then show ?thesis
        using same by simp
    qed
  qed
  have "copy_inv B N src ?s ?w"
    using inv 1 2 4 5 6 by (simp add: copy_inv_def fr)
  then show ?thesis
    using n c idle by (rule copy_inv_prepare_read)
qed

lemma copy_inv_completion:
  assumes inv: "copy_inv B N src status w" and n: "N < 65536" and nz: "B \<noteq> 0"
    and kc: "kernel_complete w cell want = Some (done_req, w')"
    and full: "uint B \<le> want"
  shows "\<exists>status'. handle_cqe B status done_req = Inr status' \<and> copy_inv B N src status' w'"
proof -
  let ?P = "\<lambda>q. sqe_user_data q = cell"
  let ?b = "block_statuses status ! cell"
  from kc obtain q where f: "find ?P (in_kernel w) = Some q"
    by (auto simp: kernel_complete_def split: option.splits)
  then have q: "q \<in> set (in_kernel w)" "sqe_user_data q = cell"
    by (auto simp: find_Some_iff)
  have "tagged N (in_kernel w)"
    using inv by (simp add: copy_inv_def)
  then have c: "cell < N"
    using q by (auto simp: tagged_def list_all_iff)
  have slot: "slot_ok B src status w cell"
    using inv c by (simp add: copy_inv_def)
  have "q \<in> set (pending status w cell)"
    using q by (simp add: pending_def)
  then have ne: "stage ?b \<noteq> BLOCK_IDLE"
    and p: "filter ?P (in_kernel w) @ filter ?P (sq status) = [request B status cell]"
    using slot by (auto simp: slot_ok_def Let_def pending_def filter_empty_conv split: if_splits)
  from pending_unique [OF p q]
  have qr: "q = request B status cell"
    and ik: "filter ?P (in_kernel w) = [request B status cell]"
    and sqe: "filter ?P (sq status) = []"
    by simp_all
  have "int (unat B) = uint B"
    by (simp only: uint_nat)
  then have w0: "\<not> want < 0" and m: "unat B \<le> nat want"
    using full uint_ge_0 [of B] by linarith+
  have rq: "sqe_off q = offset ?b" "sqe_len q = B" "sqe_buf_index q = cell"
    by (simp_all add: qr request_def Let_def)
  show ?thesis
  proof (cases "stage ?b = BLOCK_IN_WRITE")
    case True
    have op: "sqe_opcode q = IORING_OP_WRITE_FIXED"
      using True by (simp add: qr request_def Let_def)
    define data where "data = take (nat want) (take (unat B) (fixed_buffers w ! cell))"
    have k: "done_req = \<lparr>cqe_user_data = cell, cqe_res = int (length data)\<rparr>"
      "w' = w\<lparr>in_kernel := remove1 (request B status cell) (in_kernel w),
        dst_file := pwrite_file (dst_file w) (nat (offset ?b)) data\<rparr>"
      using kc f w0 op rq by (simp_all add: kernel_complete_def Let_def data_def qr [symmetric])
    have h: "handle_cqe B status done_req
        = Inr (prepare_read_request B (finish_write_request status cell) cell)"
      using True by (simp add: handle_cqe_def k(1))
    have "copy_inv B N src (prepare_read_request B (finish_write_request status cell) cell) w'"
      unfolding k(2) using inv n c nz True ik sqe m data_def
      by (rule copy_inv_write_completion)
    then show ?thesis
      using h by simp
  next
    case False
    then have st: "stage ?b = BLOCK_IN_READ"
      using ne by (cases "stage ?b") simp_all
    have op: "sqe_opcode q = IORING_OP_READ_FIXED"
      using False by (simp add: qr request_def Let_def)
    define data where "data = take (nat want)
        (pread_file (src_file w) (nat (offset ?b)) (unat B))"
    have k: "done_req = \<lparr>cqe_user_data = cell, cqe_res = int (length data)\<rparr>"
      "w' = w\<lparr>in_kernel := remove1 (request B status cell) (in_kernel w),
        fixed_buffers := (fixed_buffers w)
          [cell := data @ drop (length data) (fixed_buffers w ! cell)]\<rparr>"
      using kc f w0 op rq by (simp_all add: kernel_complete_def Let_def data_def qr [symmetric])
    have h: "handle_cqe B status done_req = Inr (prepare_write_request B status cell)"
      using st by (simp add: handle_cqe_def k(1))
    have "copy_inv B N src (prepare_write_request B status cell) w'"
      unfolding k(2) using inv c st ik sqe m data_def
      by (rule copy_inv_read_completion)
    then show ?thesis
      using h by simp
  qed
qed

lemma copy_inv_drain:
  assumes n: "N < 65536" and nz: "B \<noteq> 0"
  shows "copy_inv B N src (fst sw) (snd sw) \<Longrightarrow> list_all (\<lambda>ev. uint B \<le> snd ev) evs \<Longrightarrow>
    \<exists>sw'. drain B sw evs = Inr sw' \<and> copy_inv B N src (fst sw') (snd sw')"
proof (induction evs arbitrary: sw)
  case Nil
  then show ?case by simp
next
  case (Cons ev evs)
  show ?case
  proof (cases "kernel_complete (snd sw) (fst ev) (snd ev)")
    case None
    then show ?thesis
      using Cons by simp
  next
    case (Some a)
    obtain done_req w' where a: "a = (done_req, w')"
      by (cases a)
    have "uint B \<le> snd ev"
      using Cons.prems(2) by simp
    with Cons.prems(1) n nz Some [unfolded a]
    obtain status' where h: "handle_cqe B (fst sw) done_req = Inr status'"
      and i: "copy_inv B N src status' w'"
      using copy_inv_completion [of B N src "fst sw" "snd sw" "fst ev" "snd ev" done_req w']
      by blast
    have "\<exists>sw'. drain B (status', w') evs = Inr sw' \<and> copy_inv B N src (fst sw') (snd sw')"
      using i Cons.prems(2) by (intro Cons.IH) simp_all
    then show ?thesis
      using Some a h by simp
  qed
qed

lemma copy_inv_loop:
  assumes n: "N < 65536" and nz: "B \<noteq> 0"
  shows "copy_inv B N src (fst sw) (snd sw) \<Longrightarrow> full_results B batches \<Longrightarrow>
    copy_loop B sw batches \<noteq> Exited e
    \<and> (copy_loop B sw batches = Returned sw' \<longrightarrow> copy_inv B N src (fst sw') (snd sw'))"
proof (induction batches arbitrary: sw)
  case Nil
  then show ?case by auto
next
  case (Cons evs batches)
  show ?case
  proof (cases "src_off (fst sw) \<noteq> uint (src_size (fst sw)) \<or> num_block_in_progress (fst sw) \<noteq> 0")
    case True
    have "copy_inv B N src (fst (io_uring_submit sw)) (snd (io_uring_submit sw))"
      using copy_inv_submit [OF Cons.prems(1)] by (cases sw) (simp add: io_uring_submit_def)
    moreover have "list_all (\<lambda>ev. uint B \<le> snd ev) evs" and fb: "full_results B batches"
      using Cons.prems(2) by (simp_all add: full_results_def)
    ultimately obtain sw1 where d: "drain B (io_uring_submit sw) evs = Inr sw1"
      and i: "copy_inv B N src (fst sw1) (snd sw1)"
      using copy_inv_drain [OF n nz] by blast
    show ?thesis
      using Cons.IH [OF i fb] True d by simp
  next
    case False
    then show ?thesis
      using Cons.prems(1) by auto
  qed
qed

lemma copy_inv_done:
  assumes inv: "copy_inv B N src status w"
    and e: "src_off status = uint (src_size status)" and z: "num_block_in_progress status = 0"
  shows "ftruncate_file (dst_file w) (unat (src_size status)) = src"
proof -
  have ui: "uring_inv N status"
    and S: "uint (src_size status) = int (length src)"
    and dl: "length src \<le> length (dst_file w)"
    and dst: "\<And>i. i < nat (src_off status) \<Longrightarrow> covered status i \<or> dst_file w ! i = src ! i"
    using inv by (simp_all add: copy_inv_def)
  have "in_flight_count status = 0"
    using ui z by (simp add: uring_inv_def)
  then have "filter (\<lambda>b. stage b \<noteq> BLOCK_IDLE) (block_statuses status) = []"
    by (simp add: in_flight_count_def)
  then have "\<forall>b \<in> set (block_statuses status). stage b = BLOCK_IDLE"
    by (simp add: filter_empty_conv)
  then have nc: "\<not> covered status i" for i
    by (auto simp: covered_def)
  have "int (unat (src_size status)) = uint (src_size status)"
    by (simp only: uint_nat)
  then have u: "unat (src_size status) = length src"
    using S by linarith
  have "take (length src) (dst_file w) = src"
  proof (rule nth_equalityI)
    show "length (take (length src) (dst_file w)) = length src"
      using dl by simp
    show "take (length src) (dst_file w) ! i = src ! i"
      if "i < length (take (length src) (dst_file w))" for i
      using that dst [of i] nc e S by simp
  qed
  then show ?thesis
    using dl by (simp add: ftruncate_file_def u)
qed

text \<open>
  C1 (as amended). Let the source be not empty and shorter than \<open>2 ^ 32\<close> bytes (its size
  is kept in a \<open>uint32_t\<close>, and \<open>open_dst_file\<close> exits on an empty source), the pool smaller
  than \<open>2 ^ 16\<close> (the in-flight counter is a \<open>uint16_t\<close>), the block size not zero, and
  let every completion transfer all it can. Then, whatever
  the order of the completions, the run does not exit with a failure, and when it returns
  the destination after the final \<open>ftruncate\<close> equals the source byte for byte, also where
  the block size does not divide the size of the source.
\<close>

theorem C1_destination_equals_source:
  assumes "B \<noteq> 0" and "N < 65536" and "src \<noteq> []" and "length src < 2 ^ 32"
    and "length bufs = N" and "list_all (\<lambda>b. length b = unat B) bufs"
    and "full_results B batches"
  shows "uring_main B N src bufs batches \<noteq> Exited e
    \<and> (uring_main B N src bufs batches = Returned dst \<longrightarrow> dst = src)"
proof -
  let ?start = "(initial_reads B N (init_copying_status N (word_of_nat (length src)) 3 4),
      \<lparr>src_file = src, dst_file = replicate (unat (word_of_nat (length src) :: 32 word)) 0,
       fixed_buffers = bufs, in_kernel = []\<rparr>)"
  have "unat (word_of_nat (length src) :: 32 word) = length src"
    using assms(4) by (simp add: unat_of_nat)
  then have "(word_of_nat (length src) :: 32 word) \<noteq> 0"
    using assms(3) by auto
  then have "uring_start B N src bufs = Inr ?start"
    by (rule uring_start_nonempty)
  then have run: "uring_run B N src bufs batches = copy_loop B ?start batches"
    by (simp add: uring_run_def)
  have "copy_inv B N src (init_copying_status N (word_of_nat (length src)) 3 4)
     \<lparr>src_file = src, dst_file = replicate (unat (word_of_nat (length src) :: 32 word)) 0,
      fixed_buffers = bufs, in_kernel = []\<rparr>"
    using assms(4,5,6) by (rule copy_inv_init)
  then have "copy_inv B N src (fst ?start) (snd ?start)"
    using copy_inv_initial_reads [OF _ assms(2), of B src "word_of_nat (length src)" 3 4 _ N]
    by simp
  from copy_inv_loop [OF assms(2,1) this assms(7)]
  have x: "copy_loop B ?start batches \<noteq> Exited e"
    and r: "copy_loop B ?start batches = Returned sw \<Longrightarrow> copy_inv B N src (fst sw) (snd sw)"
    for sw
    by blast+
  have "dst = src" if "uring_main B N src bufs batches = Returned dst"
  proof -
    from that obtain sw where sw: "copy_loop B ?start batches = Returned sw"
      and d: "dst = ftruncate_file (dst_file (snd sw)) (unat (src_size (fst sw)))"
      unfolding uring_main_def run by (auto split: run.splits)
    from copy_loop_Returned [OF sw] r [OF sw] show ?thesis
      unfolding d by (intro copy_inv_done) simp_all
  qed
  moreover have "uring_main B N src bufs batches \<noteq> Exited e"
    using x unfolding uring_main_def run by (auto split: run.splits)
  ultimately show ?thesis
    by simp
qed

theorem C1_destination_equals_source_witness:
  "(4 :: 32 word) \<noteq> 0 \<and> (2 :: nat) < 65536 \<and> small_src \<noteq> [] \<and> length small_src < 2 ^ 32
   \<and> length small_bufs = 2 \<and> list_all (\<lambda>b. length b = unat (4 :: 32 word)) small_bufs
   \<and> full_results 4 small_batches
   \<and> uring_main 4 2 small_src small_bufs small_batches = Returned small_src"
proof -
  have h: "(4 :: 32 word) \<noteq> 0" "(2 :: nat) < 65536" "small_src \<noteq> []" "length small_src < 2 ^ 32"
    "length small_bufs = 2" "list_all (\<lambda>b. length b = unat (4 :: 32 word)) small_bufs"
    "full_results 4 small_batches"
    by (simp_all add: small_src_def small_bufs_def small_batches_def full_results_def)
  have r: "uring_main 4 2 small_src small_bufs small_batches
      = Returned (result (uring_main 4 2 small_src small_bufs small_batches))"
    by code_simp
  from C1_destination_equals_source [OF h] r
  have "result (uring_main 4 2 small_src small_bufs small_batches) = small_src"
    by blast
  then show ?thesis
    using h r by simp
qed

lemma large_start:
  "initial_reads READ_BLOCK_SIZE QUEUE_SIZE (init_copying_status QUEUE_SIZE 1 3 4)
     = \<lparr>src_fd = 3, dst_fd = 4, src_off = 1, src_size = 1, num_block_in_progress = 1,
        block_statuses = \<lparr>stage = BLOCK_IN_READ, offset = 0, size_blk = 1\<rparr>
          # replicate 63 \<lparr>stage = BLOCK_IDLE, offset = 0, size_blk = 0\<rparr>,
        sq = [\<lparr>sqe_opcode = IORING_OP_READ_FIXED, sqe_fd = 3, sqe_buf_index = 0,
          sqe_len = 8192, sqe_off = 0, sqe_user_data = 0\<rparr>]\<rparr>"
  by code_simp

lemma large_size: "(word_of_nat (length large_src) :: 32 word) = 1"
  by (simp add: large_src_def)

theorem C1_large_source_counterexample:
  "uring_main READ_BLOCK_SIZE QUEUE_SIZE large_src zero_bufs [[(0, 8192)], [(0, 8192)]]
     = Returned [7]
   \<and> length large_src = 4294967297
   \<and> full_results READ_BLOCK_SIZE [[(0, 8192)], [(0, 8192)]]"
  by (simp add: uring_main_def uring_run_def uring_start_def open_dst_file_def
      fallocate_file_def large_size large_start Let_def
      io_uring_submit_def kernel_complete_def handle_cqe_def prepare_write_request_def
      finish_write_request_def prepare_read_request_def pread_file_def pwrite_file_def
      ftruncate_file_def)
    (simp add: large_src_def zero_bufs_def READ_BLOCK_SIZE_def full_results_def)

text \<open>
  A run in which the write of the first block completes with the result 0: the program
  accepts it, returns, and the destination differs from the source (see C3).
\<close>

lemma short_write_run:
  "uring_main 4 2 small_src small_bufs [[(0, 4), (1, 4)], [(0, 0), (1, 4)], [(0, 4)], [(0, 4)]]
     = Returned [0, 0, 0, 0, 5, 6, 7, 8, 9, 10]"
  by code_simp

end
